theory Spec2Isabelle
  imports Complex_Main "HOL-Library.Sublist"
begin

section \<open>The outbound message queue (services/messageQueue.ts)\<close>

text \<open>
  The class \<open>MessageQueue\<close> keeps an array of message objects, a periodic timer that runs
  \<open>processQueue\<close>, and asynchronous calls of \<open>processMessage\<close> that hold on to the message
  object they were given. Message objects are shared between the array, the running calls
  and the callbacks of \<open>setTimeout\<close>; the model therefore keeps the objects in a store
  (\<open>heap\<close>, a reference is the position of the object in it) and the array as a list of
  references. Time is a counter of milliseconds read where the source calls \<open>new Date()\<close>.
  The three handlers are optional subscribers (\<open>handlers = {}\<close> after construction). A
  subscriber is modelled by what a call of it does for the argument it receives: it returns
  or it throws; it does not call back into the queue.
\<close>

subsection \<open>Data\<close>

datatype msg_type = Text | Media

datatype priority = Low | Normal | High | Urgent

datatype status = Pending | Sending | Sent | Failed | Cancelled

text \<open>
  A JavaScript number as a retry budget: \<open>addMessage\<close> stores \<open>maxAttempts\<close> as the caller
  gave it, so it may be fractional, negative, infinite or \<open>NaN\<close>. The counter \<open>attempts\<close> only
  ever starts at 0 and is incremented, so it is a natural number. The two comparisons of
  the source between them follow; every comparison with \<open>NaN\<close> is false.
\<close>

datatype number = Num real | NaN | PosInfinity | NegInfinity

fun attemptsGE :: "nat \<Rightarrow> number \<Rightarrow> bool" where
  "attemptsGE n (Num x) = (x \<le> real n)"
| "attemptsGE n NaN = False"
| "attemptsGE n PosInfinity = False"
| "attemptsGE n NegInfinity = True"

fun attemptsLT :: "nat \<Rightarrow> number \<Rightarrow> bool" where
  "attemptsLT n (Num x) = (real n < x)"
| "attemptsLT n NaN = False"
| "attemptsLT n PosInfinity = True"
| "attemptsLT n NegInfinity = False"

record QueuedMessage =
  msg_id :: string
  to :: string
  message :: string
  type :: msg_type
  mediaUrl :: "string option"
  mediaType :: "string option"
  caption :: "string option"
  priority :: priority
  status :: status
  attempts :: nat
  maxAttempts :: number
  createdAt :: nat
  scheduledFor :: "nat option"
  customerId :: "int option"
  ticketId :: "int option"
  metadata :: "(string \<times> string) list option"

record QueueStats =
  pending :: nat
  sending :: nat
  sent :: nat
  failed :: nat
  total :: nat

text \<open>
  What \<open>whatsappService\<close> answers to one call of \<open>processMessage\<close>: the value of
  \<open>isConnected()\<close>, and the result of the send (\<open>sendMessage\<close>, or \<open>MessageMedia.fromUrl\<close>
  followed by \<open>sendMedia\<close>): a boolean, or a thrown error with its message.
\<close>

record transport_reply =
  connected :: bool
  sendResult :: "string + bool"

text \<open>What a call of a subscriber does, and the three optional subscribers.\<close>

datatype outcome = Returns | Throws string

record handlers =
  onMessageSent :: "(QueuedMessage \<Rightarrow> outcome) option"
  onMessageFailed :: "(QueuedMessage \<Rightarrow> string \<Rightarrow> outcome) option"
  onQueueStatsChanged :: "(QueueStats \<Rightarrow> outcome) option"

definition noHandlers :: handlers where
  "noHandlers = \<lparr>onMessageSent = None, onMessageFailed = None, onQueueStatsChanged = None\<rparr>"

text \<open>
  The state of the queue object. \<open>queue\<close>, \<open>processing\<close> and \<open>processingInterval\<close> are the
  fields of the class (the interval is kept as the time of its next run). \<open>timeouts\<close> are the
  callbacks of \<open>setTimeout\<close> that have not run yet, each with its due time and the message it
  captured; \<open>running\<close> are the calls of \<open>processMessage\<close> suspended at an \<open>await\<close>, each with
  its message and whether the \<open>Promise.all\<close> of \<open>processQueue\<close> waits for it.
\<close>

record MessageQueue =
  heap :: "QueuedMessage list"
  queue :: "nat list"
  processing :: bool
  processingInterval :: "nat option"
  handlers :: handlers
  timeouts :: "(nat \<times> nat) list"
  running :: "(nat \<times> bool) list"
  clock :: nat

definition startProcessing :: "MessageQueue \<Rightarrow> MessageQueue" where
  "startProcessing s = s\<lparr>processingInterval := Some (clock s + 2000)\<rparr>"

definition newMessageQueue :: "nat \<Rightarrow> MessageQueue" where
  "newMessageQueue t =
     startProcessing \<lparr>heap = [], queue = [], processing = False, processingInterval = None,
                      handlers = noHandlers, timeouts = [], running = [], clock = t\<rparr>"

subsection \<open>Queue store\<close>

text \<open>
  Every operation of the store that changes it calls \<open>notifyStatsChanged\<close> as its last
  statement, when its effect is complete. The definitions give the state the operation
  leaves, which is the same whether that call returns or throws, and the value it returns
  when the call returns.
\<close>

definition getMessages :: "MessageQueue \<Rightarrow> QueuedMessage list" where
  "getMessages s = map (\<lambda>r. heap s ! r) (queue s)"


definition getMessagesByStatus :: "status \<Rightarrow> MessageQueue \<Rightarrow> QueuedMessage list" where
  "getMessagesByStatus st s = filter (\<lambda>msg. status msg = st) (getMessages s)"

fun priorityOrder :: "priority \<Rightarrow> nat" where
  "priorityOrder Urgent = 0"
| "priorityOrder High = 1"
| "priorityOrder Normal = 2"
| "priorityOrder Low = 3"

text \<open>
  The loop of \<open>insertByPriority\<close>: the index of the first resident at which the loop breaks,
  the length of the array when it never does.
\<close>

fun insertIndex :: "QueuedMessage \<Rightarrow> QueuedMessage list \<Rightarrow> nat" where
  "insertIndex msg [] = 0"
| "insertIndex msg (cur # rest) =
     (if scheduledFor msg \<noteq> None \<and> scheduledFor cur \<noteq> None then
        (if the (scheduledFor msg) < the (scheduledFor cur) then 0
         else Suc (insertIndex msg rest))
      else if priorityOrder (priority msg) < priorityOrder (priority cur) then 0
      else Suc (insertIndex msg rest))"

definition splice_in :: "nat \<Rightarrow> 'a \<Rightarrow> 'a list \<Rightarrow> 'a list" where
  "splice_in i x xs = take i xs @ [x] @ drop i xs"

definition insertByPriority :: "nat \<Rightarrow> MessageQueue \<Rightarrow> MessageQueue" where
  "insertByPriority r s =
     s\<lparr>queue := splice_in (insertIndex (heap s ! r) (getMessages s)) r (queue s)\<rparr>"

text \<open>
  \<open>addMessage\<close>: the identifier comes from \<open>generateId\<close> (the time and a random number), so it
  is an input here. The new object is allocated at the end of the store.
\<close>

definition addMessage :: "QueuedMessage \<Rightarrow> string \<Rightarrow> MessageQueue \<Rightarrow> string \<times> MessageQueue" where
  "addMessage msg newId s =
     (let queuedMessage = msg\<lparr>msg_id := newId, status := Pending, attempts := 0,
                              createdAt := clock s\<rparr>
      in (newId, insertByPriority (length (heap s)) (s\<lparr>heap := heap s @ [queuedMessage]\<rparr>)))"

fun findIndex :: "('a \<Rightarrow> bool) \<Rightarrow> 'a list \<Rightarrow> nat option" where
  "findIndex P [] = None"
| "findIndex P (x # xs) =
     (if P x then Some 0 else map_option Suc (findIndex P xs))"

definition removeMessage :: "string \<Rightarrow> MessageQueue \<Rightarrow> bool \<times> MessageQueue" where
  "removeMessage messageId s =
     (case findIndex (\<lambda>msg. msg_id msg = messageId) (getMessages s) of
        Some index \<Rightarrow> (True, s\<lparr>queue := take index (queue s) @ drop (Suc index) (queue s)\<rparr>)
      | None \<Rightarrow> (False, s))"

definition cancelMessage :: "string \<Rightarrow> MessageQueue \<Rightarrow> bool \<times> MessageQueue" where
  "cancelMessage messageId s =
     (case find (\<lambda>r. msg_id (heap s ! r) = messageId) (queue s) of
        Some r \<Rightarrow>
          (if status (heap s ! r) = Pending
           then (True, s\<lparr>heap := (heap s)[r := (heap s ! r)\<lparr>status := Cancelled\<rparr>]\<rparr>)
           else (False, s))
      | None \<Rightarrow> (False, s))"

fun countStatus :: "QueuedMessage \<Rightarrow> QueueStats \<Rightarrow> QueueStats" where
  "countStatus msg stats =
     (case status msg of
        Pending \<Rightarrow> stats\<lparr>pending := pending stats + 1\<rparr>
      | Sending \<Rightarrow> stats\<lparr>sending := sending stats + 1\<rparr>
      | Sent \<Rightarrow> stats\<lparr>sent := sent stats + 1\<rparr>
      | Failed \<Rightarrow> stats\<lparr>failed := failed stats + 1\<rparr>
      | Cancelled \<Rightarrow> stats)"

definition getStats :: "MessageQueue \<Rightarrow> QueueStats" where
  "getStats s =
     fold countStatus (getMessages s)
       \<lparr>pending = 0, sending = 0, sent = 0, failed = 0, total = length (queue s)\<rparr>"

definition clearCompleted :: "MessageQueue \<Rightarrow> nat \<times> MessageQueue" where
  "clearCompleted s =
     (let initialLength = length (queue s);
          kept = filter (\<lambda>r. \<not> List.member [Sent, Failed, Cancelled] (status (heap s ! r)))
                   (queue s)
      in (initialLength - length kept, s\<lparr>queue := kept\<rparr>))"

text \<open>The body of the \<open>forEach\<close> of \<open>retryFailed\<close>, on the counter and the store.\<close>

fun retryOne :: "nat \<Rightarrow> nat \<times> QueuedMessage list \<Rightarrow> nat \<times> QueuedMessage list" where
  "retryOne r (retried, h) =
     (if status (h ! r) = Failed \<and> attemptsLT (attempts (h ! r)) (maxAttempts (h ! r))
      then (retried + 1, h[r := (h ! r)\<lparr>status := Pending, attempts := 0\<rparr>])
      else (retried, h))"

definition retryFailed :: "MessageQueue \<Rightarrow> nat \<times> MessageQueue" where
  "retryFailed s =
     (case fold retryOne (queue s) (0, heap s) of
        (retried, h) \<Rightarrow> (retried, s\<lparr>heap := h\<rparr>))"

definition destroy :: "MessageQueue \<Rightarrow> MessageQueue" where
  "destroy s = s\<lparr>processingInterval := None, queue := [], handlers := noHandlers\<rparr>"

subsection \<open>Subscribers\<close>

text \<open>
  The methods \<open>onMessageSent\<close>, \<open>onMessageFailed\<close> and \<open>onQueueStatsChanged\<close> of the class,
  which store a subscriber, as one function on the kind of subscription.
\<close>

datatype subscription =
    OnMessageSent "QueuedMessage \<Rightarrow> outcome"
  | OnMessageFailed "QueuedMessage \<Rightarrow> string \<Rightarrow> outcome"
  | OnQueueStatsChanged "QueueStats \<Rightarrow> outcome"

fun subscribe :: "subscription \<Rightarrow> MessageQueue \<Rightarrow> MessageQueue" where
  "subscribe (OnMessageSent handler) s =
     s\<lparr>handlers := (handlers s)\<lparr>onMessageSent := Some handler\<rparr>\<rparr>"
| "subscribe (OnMessageFailed handler) s =
     s\<lparr>handlers := (handlers s)\<lparr>onMessageFailed := Some handler\<rparr>\<rparr>"
| "subscribe (OnQueueStatsChanged handler) s =
     s\<lparr>handlers := (handlers s)\<lparr>onQueueStatsChanged := Some handler\<rparr>\<rparr>"

text \<open>The optional call \<open>handler?.(...)\<close>: nothing happens when no subscriber is stored.\<close>

definition callHandler :: "('a \<Rightarrow> outcome) option \<Rightarrow> 'a \<Rightarrow> outcome" where
  "callHandler handler x = (case handler of None \<Rightarrow> Returns | Some h \<Rightarrow> h x)"

definition notifyStatsChanged :: "MessageQueue \<Rightarrow> outcome" where
  "notifyStatsChanged s = callHandler (onQueueStatsChanged (handlers s)) (getStats s)"

subsection \<open>Dispatcher\<close>

definition backoffDelay :: "nat \<Rightarrow> nat" where
  "backoffDelay n = min (1000 * 2 ^ (n - 1)) 30000"

text \<open>
  The \<open>catch\<close> block of \<open>processMessage\<close>, entered with the text of the error: the exception
  that leaves it (one thrown by the subscriber \<open>onMessageFailed\<close>), the message, and the
  callbacks it hands to \<open>setTimeout\<close>.
\<close>

definition catchBlock ::
  "nat \<Rightarrow> nat \<Rightarrow> handlers \<Rightarrow> string \<Rightarrow> QueuedMessage
     \<Rightarrow> string option \<times> QueuedMessage \<times> (nat \<times> nat) list" where
  "catchBlock now r hs err msg =
     (if attemptsGE (attempts msg) (maxAttempts msg) then
        (case callHandler (map_option (\<lambda>h m. h m err) (onMessageFailed hs))
                (msg\<lparr>status := Failed\<rparr>) of
           Throws e \<Rightarrow> (Some e, msg\<lparr>status := Failed\<rparr>, [])
         | Returns \<Rightarrow> (None, msg\<lparr>status := Failed\<rparr>, []))
      else (None, msg\<lparr>status := Pending\<rparr>, [(now + backoffDelay (attempts msg), r)]))"

text \<open>
  The \<open>finally\<close> block: \<open>notifyStatsChanged\<close>. An exception thrown there replaces the one
  that was on its way out.
\<close>

definition finallyBlock :: "string option \<Rightarrow> MessageQueue \<Rightarrow> string option \<times> MessageQueue" where
  "finallyBlock escaped s =
     (case notifyStatsChanged s of Throws e \<Rightarrow> (Some e, s) | Returns \<Rightarrow> (escaped, s))"

text \<open>
  \<open>processMessage\<close> up to its first \<open>await\<close>: the message becomes \<open>sending\<close>, the attempt is
  counted and the statistics are notified, inside the \<open>try\<close>. When the subscriber returns
  the call is suspended. When it throws, the \<open>catch\<close> and \<open>finally\<close> blocks run at once and
  the call ends without a send: its promise is resolved, or rejected with the exception
  that left it.
\<close>

datatype completion = Suspended | Resolved | Rejected string

definition processMessage_begin ::
  "bool \<Rightarrow> nat \<Rightarrow> MessageQueue \<Rightarrow> completion \<times> MessageQueue" where
  "processMessage_begin awaited r s =
     (let s1 = s\<lparr>heap := (heap s)[r := (heap s ! r)\<lparr>status := Sending,
                                                  attempts := attempts (heap s ! r) + 1\<rparr>]\<rparr>
      in case notifyStatsChanged s1 of
           Returns \<Rightarrow> (Suspended, s1\<lparr>running := running s1 @ [(r, awaited)]\<rparr>)
         | Throws err \<Rightarrow>
             (case catchBlock (clock s1) r (handlers s1) err (heap s1 ! r) of
                (escaped, msg, ts) \<Rightarrow>
                  (case finallyBlock escaped
                          (s1\<lparr>heap := (heap s1)[r := msg], timeouts := timeouts s1 @ ts\<rparr>) of
                     (None, s2) \<Rightarrow> (Resolved, s2)
                   | (Some e, s2) \<Rightarrow> (Rejected e, s2))))"

definition eligible :: "nat \<Rightarrow> QueuedMessage \<Rightarrow> bool" where
  "eligible now msg =
     (status msg = Pending \<and> (case scheduledFor msg of None \<Rightarrow> True | Some t \<Rightarrow> t \<le> now))"

definition pendingMessages :: "MessageQueue \<Rightarrow> nat list" where
  "pendingMessages s = filter (\<lambda>r. eligible (clock s) (heap s ! r)) (queue s)"

definition batch :: "MessageQueue \<Rightarrow> nat list" where
  "batch s = take 5 (pendingMessages s)"

definition awaitedLeft :: "(nat \<times> bool) list \<Rightarrow> bool" where
  "awaitedLeft rs = (filter snd rs \<noteq> [])"

text \<open>
  Once the \<open>Promise.all\<close> of \<open>processQueue\<close> has rejected, nobody waits for the calls of its
  batch that are still running.
\<close>

definition unawaited :: "(nat \<times> bool) list \<Rightarrow> (nat \<times> bool) list" where
  "unawaited rs = map (\<lambda>c. (fst c, False)) rs"

text \<open>
  \<open>processQueue\<close> starts \<open>processMessage\<close> for each message of the batch in turn, noting
  whether one of the promises is rejected at once. The \<open>Promise.all\<close> is then rejected
  (with the first rejection) or, when no call of the batch is left running, resolved; in
  both cases \<open>processQueue\<close> reaches its \<open>finally\<close> and clears \<open>processing\<close> before anything
  else runs. Otherwise it stays suspended with \<open>processing\<close> set.
\<close>

fun startOne :: "nat \<Rightarrow> bool \<times> MessageQueue \<Rightarrow> bool \<times> MessageQueue" where
  "startOne r (rejected, s) =
     (case processMessage_begin True r s of
        (Suspended, s') \<Rightarrow> (rejected, s')
      | (Resolved, s') \<Rightarrow> (rejected, s')
      | (Rejected e, s') \<Rightarrow> (True, s'))"

definition processQueue :: "MessageQueue \<Rightarrow> MessageQueue" where
  "processQueue s =
     (if processing s then s
      else if pendingMessages s = [] then s
      else
        (case fold startOne (batch s) (False, s\<lparr>processing := True\<rparr>) of
           (rejected, s1) \<Rightarrow>
             (if rejected then s1\<lparr>processing := False, running := unawaited (running s1)\<rparr>
              else if awaitedLeft (running s1) then s1
              else s1\<lparr>processing := False\<rparr>)))"

text \<open>
  The transport part of the \<open>try\<close> block, once the awaited calls have answered: the text
  of the error thrown, or \<open>None\<close> when \<open>success\<close> is true. A media message is sent when its
  \<open>mediaUrl\<close> is truthy (present and not the empty string); otherwise no send is made and
  \<open>success\<close> stays false. The error texts are written in ASCII.
\<close>

definition attemptSend :: "transport_reply \<Rightarrow> QueuedMessage \<Rightarrow> string option" where
  "attemptSend reply msg =
     (if \<not> connected reply then Some ''WhatsApp nao esta conectado''
      else
        (case (if type msg = Text then sendResult reply
               else if type msg = Media \<and> mediaUrl msg \<noteq> None \<and> mediaUrl msg \<noteq> Some []
               then sendResult reply
               else Inr False) of
           Inl err \<Rightarrow> Some err
         | Inr success \<Rightarrow> (if success then None else Some ''Falha ao enviar mensagem'')))"

text \<open>
  The rest of the \<open>try\<close> block: the error thrown into the \<open>catch\<close>, if any, and the message
  as the block leaves it. After a successful send the message is marked \<open>sent\<close> and the
  subscriber \<open>onMessageSent\<close> is called, still inside the \<open>try\<close>: when it throws, the error
  goes to the \<open>catch\<close> with the message marked \<open>sent\<close>.
\<close>

definition tryBlock ::
  "handlers \<Rightarrow> transport_reply \<Rightarrow> QueuedMessage \<Rightarrow> string option \<times> QueuedMessage" where
  "tryBlock hs reply msg =
     (case attemptSend reply msg of
        Some err \<Rightarrow> (Some err, msg)
      | None \<Rightarrow>
          (case callHandler (onMessageSent hs) (msg\<lparr>status := Sent\<rparr>) of
             Throws e \<Rightarrow> (Some e, msg\<lparr>status := Sent\<rparr>)
           | Returns \<Rightarrow> (None, msg\<lparr>status := Sent\<rparr>)))"

text \<open>
  \<open>processMessage\<close> from its first \<open>await\<close> to its end: the exception that leaves the
  function, if any (its promise is then rejected), and the state it leaves.
\<close>

definition processMessage_resume ::
  "nat \<Rightarrow> transport_reply \<Rightarrow> MessageQueue \<Rightarrow> string option \<times> MessageQueue" where
  "processMessage_resume r reply s =
     (case tryBlock (handlers s) reply (heap s ! r) of
        (None, msg) \<Rightarrow> finallyBlock None (s\<lparr>heap := (heap s)[r := msg]\<rparr>)
      | (Some err, msg1) \<Rightarrow>
          (case catchBlock (clock s) r (handlers s) err msg1 of
             (escaped, msg, ts) \<Rightarrow>
               finallyBlock escaped
                 (s\<lparr>heap := (heap s)[r := msg], timeouts := timeouts s @ ts\<rparr>)))"

text \<open>
  The promise of a running \<open>processMessage\<close> settles. When the \<open>Promise.all\<close> of
  \<open>processQueue\<close> waited for it and it is rejected, or it was the last one waited for,
  \<open>processQueue\<close> reaches its \<open>finally\<close> and clears \<open>processing\<close>. A rejected promise nobody
  waits for changes nothing more.
\<close>

definition settle :: "nat \<Rightarrow> transport_reply \<Rightarrow> MessageQueue \<Rightarrow> MessageQueue option" where
  "settle r reply s =
     (case find (\<lambda>c. fst c = r) (running s) of
        None \<Rightarrow> None
      | Some c \<Rightarrow>
          (let rest = remove1 c (running s) in
           case processMessage_resume r reply s of
             (Some e, s') \<Rightarrow>
               Some (if snd c then s'\<lparr>running := unawaited rest, processing := False\<rparr>
                     else s'\<lparr>running := rest\<rparr>)
           | (None, s') \<Rightarrow>
               Some (s'\<lparr>running := rest,
                        processing := (if snd c \<and> \<not> awaitedLeft rest then False
                                       else processing s')\<rparr>)))"

text \<open>
  The callback of \<open>setTimeout\<close> number \<open>k\<close> runs, not before its delay has passed: it calls
  \<open>processMessage\<close> when the message is \<open>pending\<close>, and nobody waits for that call.
\<close>

definition fireTimeout :: "nat \<Rightarrow> MessageQueue \<Rightarrow> MessageQueue option" where
  "fireTimeout k s =
     (if k < length (timeouts s) \<and> fst (timeouts s ! k) \<le> clock s then
        (let r = snd (timeouts s ! k);
             s' = s\<lparr>timeouts := take k (timeouts s) @ drop (Suc k) (timeouts s)\<rparr>
         in Some (if status (heap s ! r) = Pending then snd (processMessage_begin False r s')
                  else s'))
      else None)"

text \<open>The callback of \<open>setInterval\<close> runs, every two seconds while the interval is set.\<close>

definition tick :: "MessageQueue \<Rightarrow> MessageQueue option" where
  "tick s =
     (case processingInterval s of
        None \<Rightarrow> None
      | Some due \<Rightarrow>
          (if due \<le> clock s
           then Some (processQueue (s\<lparr>processingInterval := Some (clock s + 2000)\<rparr>))
           else None))"

subsection \<open>Runs of the queue\<close>

datatype event =
    AddMessage QueuedMessage string
  | RemoveMessage string
  | CancelMessage string
  | ClearCompleted
  | RetryFailed
  | Destroy
  | Tick
  | Fire nat
  | Settle nat transport_reply
  | Advance nat

fun step :: "event \<Rightarrow> MessageQueue \<Rightarrow> MessageQueue option" where
  "step (AddMessage msg newId) s = Some (snd (addMessage msg newId s))"
| "step (RemoveMessage messageId) s = Some (snd (removeMessage messageId s))"
| "step (CancelMessage messageId) s = Some (snd (cancelMessage messageId s))"
| "step ClearCompleted s = Some (snd (clearCompleted s))"
| "step RetryFailed s = Some (snd (retryFailed s))"
| "step Destroy s = Some (destroy s)"
| "step Tick s = tick s"
| "step (Fire k) s = fireTimeout k s"
| "step (Settle r reply) s = settle r reply s"
| "step (Advance d) s = Some (s\<lparr>clock := clock s + d\<rparr>)"

fun run :: "event list \<Rightarrow> MessageQueue \<Rightarrow> MessageQueue option" where
  "run [] s = Some s"
| "run (e # es) s = (case step e s of None \<Rightarrow> None | Some s' \<Rightarrow> run es s')"

text \<open>
  Runs in which subscribers are registered as well: an action is an event of the queue or
  a subscription. \<open>run\<close> is the runs of the queue as constructed, without subscribers.
\<close>

datatype action = Event event | Subscribe subscription

fun perform :: "action \<Rightarrow> MessageQueue \<Rightarrow> MessageQueue option" where
  "perform (Event e) s = step e s"
| "perform (Subscribe sub) s = Some (subscribe sub s)"

fun performAll :: "action list \<Rightarrow> MessageQueue \<Rightarrow> MessageQueue option" where
  "performAll [] s = Some s"
| "performAll (a # as) s =
     (case perform a s of None \<Rightarrow> None | Some s' \<Rightarrow> performAll as s')"

subsection \<open>Auxiliary notions for the properties\<close>

definition terminal :: "QueuedMessage \<Rightarrow> bool" where
  "terminal msg = (status msg = Sent \<or> status msg = Failed \<or> status msg = Cancelled)"

text \<open>A text message as the messenger component enqueues it, for the examples.\<close>

definition textMessage :: "priority \<Rightarrow> nat option \<Rightarrow> int \<Rightarrow> QueuedMessage" where
  "textMessage p sched budget =
     \<lparr>msg_id = [], to = ''555@dest'', message = ''hi'', type = Text, mediaUrl = None,
      mediaType = None, caption = None, priority = p, status = Pending, attempts = 0,
      maxAttempts = Num (of_int budget), createdAt = 0, scheduledFor = sched, customerId = None,
      ticketId = None, metadata = None\<rparr>"

definition enqueuedExample :: "MessageQueue" where
  "enqueuedExample = snd (addMessage (textMessage Normal None 3) ''m1'' (newMessageQueue 0))"

definition cancelledExample :: "MessageQueue" where
  "cancelledExample = snd (cancelMessage ''m1'' enqueuedExample)"

text \<open>
  The references of the array point into the store and no object is in the array twice.
\<close>

definition refsValid :: "MessageQueue \<Rightarrow> bool" where
  "refsValid s = (list_all (\<lambda>r. r < length (heap s)) (queue s) \<and> distinct (queue s))"

text \<open>
  The comparison of the ordering rule as the specification words it: when the new message
  and the resident both carry a scheduled time the resident's is strictly later, otherwise
  the resident's priority is strictly lower.
\<close>

definition placedBefore :: "QueuedMessage \<Rightarrow> QueuedMessage \<Rightarrow> bool" where
  "placedBefore new resident =
     (case (scheduledFor new, scheduledFor resident) of
        (Some t, Some t') \<Rightarrow> t < t'
      | _ \<Rightarrow> priorityOrder (priority new) < priorityOrder (priority resident))"

definition enqueueAll :: "(priority \<times> nat option \<times> string) list \<Rightarrow> event list" where
  "enqueueAll ps = map (\<lambda>(p, sched, i). AddMessage (textMessage p sched 3) i) ps"

text \<open>What \<open>getMessages\<close> lists after a run: the identifier and priority of each message.\<close>

definition listed :: "MessageQueue option \<Rightarrow> (string \<times> priority) list" where
  "listed r =
     (case r of None \<Rightarrow> [] | Some s \<Rightarrow> map (\<lambda>m. (msg_id m, priority m)) (getMessages s))"

text \<open>
  A run in which the transport is never connected: the message fails at 2000, is retried
  by its timeout at 3000 and fails again, and one second later the interval runs.
\<close>

definition disconnected :: transport_reply where
  "disconnected = \<lparr>connected = False, sendResult = Inr False\<rparr>"

definition twoFailuresTrace :: "event list" where
  "twoFailuresTrace =
     [AddMessage (textMessage Normal None 3) ''m1'', Advance 2000, Tick, Settle 0 disconnected,
      Advance 1000, Fire 0, Settle 0 disconnected]"

definition backoffTrace :: "event list" where
  "backoffTrace = twoFailuresTrace @ [Advance 1000]"

definition exhaustTrace :: "event list" where
  "exhaustTrace = backoffTrace @ [Tick, Settle 0 disconnected]"

definition backoffExample :: MessageQueue where
  "backoffExample =
     \<lparr>heap = [(textMessage Normal None 3)\<lparr>msg_id := ''m1'', status := Pending, attempts := 2\<rparr>],
      queue = [0], processing = False, processingInterval = Some 4000, handlers = noHandlers,
      timeouts = [(5000, 0)], running = [], clock = 4000\<rparr>"

definition exhaustedExample :: MessageQueue where
  "exhaustedExample =
     \<lparr>heap = [(textMessage Normal None 3)\<lparr>msg_id := ''m1'', status := Failed, attempts := 3\<rparr>],
      queue = [0], processing = False, processingInterval = Some 6000, handlers = noHandlers,
      timeouts = [(5000, 0)], running = [], clock = 4000\<rparr>"

text \<open>The object \<open>addMessage\<close> stores for a request.\<close>

definition queuedMessage :: "QueuedMessage \<Rightarrow> string \<Rightarrow> nat \<Rightarrow> QueuedMessage" where
  "queuedMessage msg newId now =
     msg\<lparr>msg_id := newId, status := Pending, attempts := 0, createdAt := now\<rparr>"

text \<open>What the synchronous part of \<open>processMessage\<close> does to its message.\<close>

definition begun :: "QueuedMessage \<Rightarrow> QueuedMessage" where
  "begun m = m\<lparr>status := Sending, attempts := attempts m + 1\<rparr>"

text \<open>
  What the \<open>catch\<close> block leaves of the message it is entered with, and the timeouts it
  sets; what \<open>processMessage\<close> leaves of its message from its first \<open>await\<close> on.
\<close>

definition caught :: "QueuedMessage \<Rightarrow> QueuedMessage" where
  "caught m =
     (if attemptsGE (attempts m) (maxAttempts m) then m\<lparr>status := Failed\<rparr>
      else m\<lparr>status := Pending\<rparr>)"

definition retryTimers :: "nat \<Rightarrow> nat \<Rightarrow> QueuedMessage \<Rightarrow> (nat \<times> nat) list" where
  "retryTimers now r m =
     (if attemptsGE (attempts m) (maxAttempts m) then []
      else [(now + backoffDelay (attempts m), r)])"

definition settled :: "handlers \<Rightarrow> transport_reply \<Rightarrow> QueuedMessage \<Rightarrow> QueuedMessage" where
  "settled hs reply m =
     (case tryBlock hs reply m of (None, msg) \<Rightarrow> msg | (Some err, msg) \<Rightarrow> caught msg)"

definition settledTimers ::
  "nat \<Rightarrow> nat \<Rightarrow> handlers \<Rightarrow> transport_reply \<Rightarrow> QueuedMessage \<Rightarrow> (nat \<times> nat) list" where
  "settledTimers now r hs reply m =
     (case tryBlock hs reply m of (None, msg) \<Rightarrow> [] | (Some err, msg) \<Rightarrow> retryTimers now r msg)"

text \<open>
  The invariant of the queue: references are valid, every running call of \<open>processMessage\<close>
  works on a message that is \<open>sending\<close> and no message has two running calls, and a
  \<open>failed\<close> message has used up its attempts.
\<close>

definition consistent :: "MessageQueue \<Rightarrow> bool" where
  "consistent s =
     (refsValid s
      \<and> (\<forall>t\<in>set (timeouts s). snd t < length (heap s))
      \<and> (\<forall>c\<in>set (running s). fst c < length (heap s) \<and> status (heap s ! fst c) = Sending)
      \<and> distinct (map fst (running s))
      \<and> (\<forall>m\<in>set (heap s). status m = Failed \<longrightarrow> attemptsGE (attempts m) (maxAttempts m)))"

text \<open>Subscribers that do not throw, whatever they are called with.\<close>

definition sentQuiet :: "handlers \<Rightarrow> bool" where
  "sentQuiet hs = (case onMessageSent hs of None \<Rightarrow> True | Some h \<Rightarrow> \<forall>m. h m = Returns)"

definition failedQuiet :: "handlers \<Rightarrow> bool" where
  "failedQuiet hs =
     (case onMessageFailed hs of None \<Rightarrow> True | Some h \<Rightarrow> \<forall>m err. h m err = Returns)"

definition statsQuiet :: "handlers \<Rightarrow> bool" where
  "statsQuiet hs =
     (case onQueueStatsChanged hs of None \<Rightarrow> True | Some h \<Rightarrow> \<forall>stats. h stats = Returns)"

text \<open>
  The moves of one message object under one event: it stays as it is, or it takes the
  transition of the delivery state machine that belongs to the event. A call of
  \<open>processMessage\<close> whose notification throws goes on to the \<open>catch\<close> block at once.
\<close>

definition moved :: "handlers \<Rightarrow> event \<Rightarrow> nat \<Rightarrow> QueuedMessage \<Rightarrow> QueuedMessage \<Rightarrow> bool" where
  "moved hs e r m m' =
     (m' = m \<or>
      (case e of
         CancelMessage i \<Rightarrow> status m = Pending \<and> m' = m\<lparr>status := Cancelled\<rparr>
       | Tick \<Rightarrow> status m = Pending
                 \<and> (m' = begun m \<or> \<not> statsQuiet hs \<and> m' = caught (begun m))
       | Fire k \<Rightarrow> status m = Pending
                   \<and> (m' = begun m \<or> \<not> statsQuiet hs \<and> m' = caught (begun m))
       | Settle r' reply \<Rightarrow> r' = r \<and> status m = Sending \<and> m' = settled hs reply m
       | _ \<Rightarrow> False))"

text \<open>
  The bound of the claim on \<open>attempts\<close>, as a comparison of JavaScript numbers, and a
  budget that is a whole number of at least 1.
\<close>

fun attemptsLE :: "nat \<Rightarrow> number \<Rightarrow> bool" where
  "attemptsLE n (Num x) = (real n \<le> x)"
| "attemptsLE n NaN = False"
| "attemptsLE n PosInfinity = True"
| "attemptsLE n NegInfinity = False"

fun wholeBudget :: "number \<Rightarrow> bool" where
  "wholeBudget (Num x) = (x \<in> \<nat> \<and> 1 \<le> x)"
| "wholeBudget NaN = False"
| "wholeBudget PosInfinity = False"
| "wholeBudget NegInfinity = False"

fun budgeted :: "action \<Rightarrow> bool" where
  "budgeted (Event (AddMessage msg newId)) = wholeBudget (maxAttempts msg)"
| "budgeted a = True"

text \<open>A message has not used more attempts than a whole budget allows in its status.\<close>

definition withinBudget :: "QueuedMessage \<Rightarrow> bool" where
  "withinBudget m =
     (\<exists>k. maxAttempts m = Num (real k) \<and> attempts m \<le> k
          \<and> (status m = Pending \<longrightarrow> attempts m < k)
          \<and> (status m = Failed \<longrightarrow> attempts m = k))"

text \<open>A connected transport whose send throws, and one whose send returns a boolean.\<close>

definition threw :: "string \<Rightarrow> transport_reply" where
  "threw err = \<lparr>connected = True, sendResult = Inl err\<rparr>"

definition returned :: "bool \<Rightarrow> transport_reply" where
  "returned b = \<lparr>connected = True, sendResult = Inr b\<rparr>"

text \<open>A request with a budget of 0, which \<open>addMessage\<close> accepts, and its first cycle.\<close>

definition zeroBudgetTrace :: "event list" where
  "zeroBudgetTrace = [AddMessage (textMessage Normal None 0) ''m0'', Advance 2000, Tick]"

text \<open>
  The message a beginning call of \<open>processMessage\<close> leaves: counted and \<open>sending\<close>, or taken
  through the \<open>catch\<close> block at once when the notification throws.
\<close>

definition started :: "handlers \<Rightarrow> QueuedMessage \<Rightarrow> QueuedMessage \<Rightarrow> bool" where
  "started hs m m' = (m' = begun m \<or> \<not> statsQuiet hs \<and> m' = caught (begun m))"

text \<open>
  A run with subscribers that do not throw, for a message with a given budget: the state
  in which its first attempt is running and, for a budget of 3, the state after a
  successful send.
\<close>

definition quietHandlers :: handlers where
  "quietHandlers =
     \<lparr>onMessageSent = Some (\<lambda>m. Returns), onMessageFailed = None,
      onQueueStatsChanged = Some (\<lambda>stats. Returns)\<rparr>"

definition quietStartTrace :: "int \<Rightarrow> action list" where
  "quietStartTrace budget =
     [Subscribe (OnMessageSent (\<lambda>m. Returns)), Subscribe (OnQueueStatsChanged (\<lambda>stats. Returns)),
      Event (AddMessage (textMessage Normal None budget) ''m1''), Event (Advance 2000),
      Event Tick]"


definition quietSendingExample :: "int \<Rightarrow> MessageQueue" where
  "quietSendingExample budget =
     \<lparr>heap = [(textMessage Normal None budget)\<lparr>msg_id := ''m1'', status := Sending,
                                                attempts := 1\<rparr>],
      queue = [0], processing = True, processingInterval = Some 4000, handlers = quietHandlers,
      timeouts = [], running = [(0, True)], clock = 2000\<rparr>"


text \<open>
  A subscriber \<open>onMessageSent\<close> that throws, and the state in which the first attempt on a
  message with a given budget is running.
\<close>

definition sentThrowTrace :: "int \<Rightarrow> action list" where
  "sentThrowTrace budget =
     [Subscribe (OnMessageSent (\<lambda>m. Throws ''subscriber'')),
      Event (AddMessage (textMessage Normal None budget) ''m1''), Event (Advance 2000),
      Event Tick]"

definition sentThrowExample :: "int \<Rightarrow> MessageQueue" where
  "sentThrowExample budget =
     \<lparr>heap = [(textMessage Normal None budget)\<lparr>msg_id := ''m1'', status := Sending,
                                                attempts := 1\<rparr>],
      queue = [0], processing = True, processingInterval = Some 4000,
      handlers = noHandlers\<lparr>onMessageSent := Some (\<lambda>m. Throws ''subscriber'')\<rparr>,
      timeouts = [], running = [(0, True)], clock = 2000\<rparr>"



text \<open>
  A request with a budget of 1.5, which satisfies the bound of the interface, with a
  transport that is never connected: the first attempt fails and is retried by its
  timeout, the second fails.
\<close>

definition fractionalTrace :: "event list" where
  "fractionalTrace =
     [AddMessage ((textMessage Normal None 1)\<lparr>maxAttempts := Num (3 / 2)\<rparr>) ''m1'',
      Advance 2000, Tick, Settle 0 disconnected, Advance 1000, Fire 0, Settle 0 disconnected]"


text \<open>
  A subscriber \<open>onQueueStatsChanged\<close> that throws, with a message with a budget of 1 and
  its first cycle; and one that throws only when no message is \<open>sending\<close>, so that it
  returns when an attempt begins and throws when the attempt has ended.
\<close>

definition statsThrowTrace :: "action list" where
  "statsThrowTrace =
     [Subscribe (OnQueueStatsChanged (\<lambda>stats. Throws ''subscriber'')),
      Event (AddMessage (textMessage Normal None 1) ''m1''), Event (Advance 2000), Event Tick]"


section \<open>Properties\<close>

subsection \<open>Statistics\<close>

lemma fold_countStatus_total: "total (fold countStatus ms st) = total st"
  by (induction ms arbitrary: st) (auto split: status.splits)

lemma fold_countStatus_pending:
  "pending (fold countStatus ms st) = pending st + length (filter (\<lambda>m. status m = Pending) ms)"
  by (induction ms arbitrary: st) (auto split: status.splits)

lemma fold_countStatus_sending:
  "sending (fold countStatus ms st) = sending st + length (filter (\<lambda>m. status m = Sending) ms)"
  by (induction ms arbitrary: st) (auto split: status.splits)

lemma fold_countStatus_sent:
  "sent (fold countStatus ms st) = sent st + length (filter (\<lambda>m. status m = Sent) ms)"
  by (induction ms arbitrary: st) (auto split: status.splits)

lemma fold_countStatus_failed:
  "failed (fold countStatus ms st) = failed st + length (filter (\<lambda>m. status m = Failed) ms)"
  by (induction ms arbitrary: st) (auto split: status.splits)

lemma status_partition:
  "length (filter (\<lambda>m. status m = Pending) ms) + length (filter (\<lambda>m. status m = Sending) ms)
   + length (filter (\<lambda>m. status m = Sent) ms) + length (filter (\<lambda>m. status m = Failed) ms)
   + length (filter (\<lambda>m. status m = Cancelled) ms) = length ms"
proof (induction ms)
  case Nil
  show ?case by simp
next
  case (Cons m ms)
  then show ?case by (cases "status m") simp_all
qed

text \<open>
  C10. In every state of the queue, \<open>total\<close> of \<open>getStats\<close> is the number of stored messages,
  cancelled ones included, and no other field counts a cancelled message: the four
  category counts and the number of cancelled messages add up to \<open>total\<close>. So the four
  counts need not add up to \<open>total\<close>: after one message is enqueued and cancelled the
  store holds one cancelled message, \<open>total\<close> is 1 and the four counts are 0.
\<close>

theorem stats_total_counts_cancelled:
  "total (getStats s) = length (getMessages s)
   \<and> pending (getStats s) + sending (getStats s) + sent (getStats s) + failed (getStats s)
       + length (getMessagesByStatus Cancelled s) = total (getStats s)
   \<and> map status (getMessages cancelledExample) = [Cancelled]
   \<and> total (getStats cancelledExample) = 1
   \<and> pending (getStats cancelledExample) + sending (getStats cancelledExample)
       + sent (getStats cancelledExample) + failed (getStats cancelledExample) = 0"
proof -
  have t: "total (getStats s) = length (getMessages s)"
    by (simp add: getStats_def fold_countStatus_total getMessages_def)
  have sum: "pending (getStats s) + sending (getStats s) + sent (getStats s) + failed (getStats s)
       + length (getMessagesByStatus Cancelled s) = length (getMessages s)"
    using status_partition [of "getMessages s"]
    by (simp add: getStats_def getMessagesByStatus_def fold_countStatus_pending
        fold_countStatus_sending fold_countStatus_sent fold_countStatus_failed)
  have ex: "heap cancelledExample
              = [(textMessage Normal None 3)\<lparr>msg_id := ''m1'', status := Cancelled\<rparr>]
            \<and> queue cancelledExample = [0]"
    by (simp add: cancelledExample_def enqueuedExample_def cancelMessage_def addMessage_def insertByPriority_def
        newMessageQueue_def startProcessing_def getMessages_def splice_in_def textMessage_def)
  have e1: "map status (getMessages cancelledExample) = [Cancelled]"
    using ex by (simp add: getMessages_def)
  have e2: "getStats cancelledExample
              = \<lparr>pending = 0, sending = 0, sent = 0, failed = 0, total = 1\<rparr>"
    using ex by (simp add: getStats_def getMessages_def)
  show ?thesis using t sum e1 e2 by simp
qed

subsection \<open>Sweeping terminal messages\<close>



subsection \<open>Cancelling\<close>






lemma refsValid_enqueuedExample: "refsValid enqueuedExample"
  by (simp add: refsValid_def enqueuedExample_def addMessage_def insertByPriority_def
      newMessageQueue_def startProcessing_def getMessages_def splice_in_def)



subsection \<open>Insertion order\<close>

lemma insertIndex_takeWhile:
  "insertIndex msg xs = length (takeWhile (\<lambda>x. \<not> placedBefore msg x) xs)"
  by (induction xs) (auto simp: placedBefore_def split: option.splits)

lemma splice_insertIndex:
  "splice_in (insertIndex msg xs) msg xs
     = takeWhile (\<lambda>x. \<not> placedBefore msg x) xs @ [msg]
         @ dropWhile (\<lambda>x. \<not> placedBefore msg x) xs"
  by (simp add: splice_in_def insertIndex_takeWhile takeWhile_eq_take [symmetric]
      dropWhile_eq_drop [symmetric])

lemma map_splice_in: "map f (splice_in k x xs) = splice_in k (f x) (map f xs)"
  by (simp add: splice_in_def take_map drop_map)

lemma map_nth_append_valid:
  "list_all (\<lambda>r. r < length h) qs \<Longrightarrow> map (\<lambda>r. (h @ [x]) ! r) qs = map (\<lambda>r. h ! r) qs"
  by (induction qs) (auto simp: nth_append)

lemma getMessages_addMessage:
  assumes "refsValid s"
  shows "getMessages (snd (addMessage msg i s))
     = splice_in (insertIndex (queuedMessage msg i (clock s)) (getMessages s))
         (queuedMessage msg i (clock s)) (getMessages s)"
proof -
  have v: "list_all (\<lambda>r. r < length (heap s)) (queue s)"
    using assms by (simp add: refsValid_def)
  show ?thesis
    by (simp add: addMessage_def insertByPriority_def getMessages_def map_splice_in
        map_nth_append_valid [OF v] Let_def queuedMessage_def)
qed

lemmas add_defs =
  addMessage_def insertByPriority_def newMessageQueue_def startProcessing_def getMessages_def
  splice_in_def textMessage_def

lemma two_scheduled:
  "listed (run [AddMessage ((a::QueuedMessage)\<lparr>scheduledFor := Some ta\<rparr>) ''A'',
                AddMessage ((b::QueuedMessage)\<lparr>scheduledFor := Some tb\<rparr>) ''B'']
        (newMessageQueue t))
     = (if tb < ta then [(''B'', priority b), (''A'', priority a)]
        else [(''A'', priority a), (''B'', priority b)])"
  by (simp add: listed_def add_defs)

lemma four_priorities:
  "listed (run (enqueueAll [(Low, None, ''1''), (Urgent, None, ''2''), (Normal, None, ''3''),
                            (High, None, ''4'')]) (newMessageQueue 0))
   = [(''2'', Urgent), (''4'', High), (''3'', Normal), (''1'', Low)]"
  by (simp add: listed_def enqueueAll_def add_defs)

text \<open>
  C4. \<open>addMessage\<close> places the new message directly before the first resident, scanning
  from the front, that it is \<open>placedBefore\<close>: whose scheduled time is strictly later when
  both carry one, whose priority is strictly lower otherwise; it is appended when there is
  none, and the residents keep their order. So priorities low, urgent, normal, high
  enqueued without schedules are listed urgent, high, normal, low; and of two scheduled
  messages enqueued into an empty queue the one scheduled earlier is listed first, whatever
  the priorities (the first enqueued when the times are equal).
\<close>

theorem addMessage_insertion_order:
  assumes "refsValid s"
  shows "fst (addMessage msg i s) = i
     \<and> getMessages (snd (addMessage msg i s))
         = takeWhile (\<lambda>m. \<not> placedBefore (queuedMessage msg i (clock s)) m) (getMessages s)
           @ [queuedMessage msg i (clock s)]
           @ dropWhile (\<lambda>m. \<not> placedBefore (queuedMessage msg i (clock s)) m) (getMessages s)
     \<and> listed (run (enqueueAll [(Low, None, ''1''), (Urgent, None, ''2''), (Normal, None, ''3''),
                                 (High, None, ''4'')]) (newMessageQueue 0))
         = [(''2'', Urgent), (''4'', High), (''3'', Normal), (''1'', Low)]
     \<and> listed (run [AddMessage (a\<lparr>scheduledFor := Some ta\<rparr>) ''A'',
                     AddMessage (b\<lparr>scheduledFor := Some tb\<rparr>) ''B''] (newMessageQueue t))
         = (if tb < ta then [(''B'', priority b), (''A'', priority a)]
            else [(''A'', priority a), (''B'', priority b)])"
proof -
  have "fst (addMessage msg i s) = i"
    by (simp add: addMessage_def Let_def)
  then show ?thesis
    using getMessages_addMessage [OF assms, of msg i] two_scheduled
      four_priorities
    by (simp only: splice_insertIndex)
qed

theorem addMessage_insertion_order_witness:
  "refsValid enqueuedExample
   \<and> map priority (getMessages enqueuedExample) = [Normal]
   \<and> map priority (getMessages (snd (addMessage (textMessage Urgent None 3) ''m2''
                                        enqueuedExample))) = [Urgent, Normal]"
proof -
  have g: "getMessages enqueuedExample = [(textMessage Normal None 3)\<lparr>msg_id := ''m1''\<rparr>]"
    by (simp add: enqueuedExample_def add_defs)
  show ?thesis
    using addMessage_insertion_order [OF refsValid_enqueuedExample,
        of "textMessage Urgent None 3" "''m2''"]
    by (simp add: g refsValid_enqueuedExample placedBefore_def queuedMessage_def
        textMessage_def)
qed

subsection \<open>Retries\<close>

lemmas run_defs =
  addMessage_def insertByPriority_def newMessageQueue_def startProcessing_def getMessages_def
  splice_in_def textMessage_def tick_def processQueue_def pendingMessages_def batch_def
  eligible_def processMessage_begin_def settle_def processMessage_resume_def tryBlock_def
  attemptSend_def catchBlock_def finallyBlock_def notifyStatsChanged_def callHandler_def
  noHandlers_def backoffDelay_def fireTimeout_def awaitedLeft_def unawaited_def
  disconnected_def

lemma run_append:
  "run (es @ es') s = (case run es s of None \<Rightarrow> None | Some s' \<Rightarrow> run es' s')"
  by (induction es arbitrary: s) (auto split: option.splits)

lemma run_twoFailuresTrace:
  "run twoFailuresTrace (newMessageQueue 0) = Some (backoffExample\<lparr>clock := 3000\<rparr>)"
  by (simp add: twoFailuresTrace_def backoffExample_def run_defs)

lemma run_backoffTrace: "run backoffTrace (newMessageQueue 0) = Some backoffExample"
  by (simp add: backoffTrace_def run_append run_twoFailuresTrace) (simp add: backoffExample_def)

lemma run_exhaustTrace: "run exhaustTrace (newMessageQueue 0) = Some exhaustedExample"
  by (simp add: exhaustTrace_def run_append run_backoffTrace)
     (simp add: backoffExample_def exhaustedExample_def run_defs)

text \<open>
  C1 on the code. With a transport that is never connected a message with a budget of 3
  ends \<open>failed\<close> with 3 attempts; \<open>retryFailed\<close> then returns 0 and changes nothing: the
  message stays \<open>failed\<close> with 3 attempts.
\<close>

theorem retryFailed_skips_exhausted:
  "run exhaustTrace (newMessageQueue 0) = Some exhaustedExample
   \<and> map (\<lambda>m. (status m, attempts m, maxAttempts m)) (getMessages exhaustedExample)
       = [(Failed, 3, Num 3)]
   \<and> retryFailed exhaustedExample = (0, exhaustedExample)"
  using run_exhaustTrace
  by (simp add: exhaustedExample_def retryFailed_def getMessages_def textMessage_def)

text \<open>
  C2 on the code. The second attempt fails at time 3000 with 2 attempts of 3, so the delay
  is 2000 and the timeout is due at 5000; the message is \<open>pending\<close> again. At time 4000 the
  interval runs \<open>processQueue\<close>, which takes the message as any pending one: the third
  attempt starts at 4000, 1000 after the failure, with the timeout still outstanding.
\<close>

theorem retry_before_backoff_elapsed:
  "run twoFailuresTrace (newMessageQueue 0) = Some (backoffExample\<lparr>clock := 3000\<rparr>)
   \<and> backoffDelay 2 = 2000
   \<and> run backoffTrace (newMessageQueue 0) = Some backoffExample
   \<and> map (\<lambda>m. (status m, attempts m)) (getMessages backoffExample) = [(Pending, 2)]
   \<and> timeouts backoffExample = [(5000, 0)]
   \<and> map_option (\<lambda>s. (clock s, map (\<lambda>m. (status m, attempts m)) (getMessages s), timeouts s))
        (step Tick backoffExample) = Some (4000, [(Sending, 3)], [(5000, 0)])"
  using run_twoFailuresTrace run_backoffTrace
  by (simp add: backoffExample_def run_defs)

subsection \<open>The invariant of the queue\<close>

lemma consistent_new: "consistent (newMessageQueue t)"
  by (simp add: consistent_def refsValid_def newMessageQueue_def startProcessing_def)

lemma set_update_all:
  "(\<forall>m\<in>set h. P m) \<Longrightarrow> P x \<Longrightarrow> (\<forall>m\<in>set (h[r := x]). P m)"
  using set_update_subset_insert [of h r x] by auto

lemma GE_not_LT: "attemptsGE n x \<Longrightarrow> \<not> attemptsLT n x"
  by (cases x) auto

lemma consistent_processing: "consistent (s\<lparr>processing := b\<rparr>) = consistent s"
  by (simp add: consistent_def refsValid_def)

lemma consistent_interval: "consistent (s\<lparr>processingInterval := b\<rparr>) = consistent s"
  by (simp add: consistent_def refsValid_def)

lemma consistent_clock: "consistent (s\<lparr>clock := b\<rparr>) = consistent s"
  by (simp add: consistent_def refsValid_def)

lemma consistent_handlers: "consistent (s\<lparr>handlers := b\<rparr>) = consistent s"
  by (simp add: consistent_def refsValid_def)

lemma unawaited_fst: "map fst (unawaited rs) = map fst rs"
  by (simp add: unawaited_def comp_def)

lemma consistent_unawaited:
  "consistent (s\<lparr>running := unawaited (running s)\<rparr>) = consistent s"
  by (auto simp: consistent_def refsValid_def unawaited_fst) (auto simp: unawaited_def)

lemma statsQuiet_notify: "statsQuiet (handlers s) \<Longrightarrow> notifyStatsChanged s = Returns"
  by (simp add: statsQuiet_def notifyStatsChanged_def callHandler_def split: option.splits)

lemma finallyBlock_snd: "snd (finallyBlock escaped s) = s"
  by (simp add: finallyBlock_def split: outcome.splits)


lemma catchBlock_snd: "snd (catchBlock now r hs err m) = (caught m, retryTimers now r m)"
  by (simp add: catchBlock_def caught_def retryTimers_def split: outcome.splits)


lemma caught_fields:
  "attempts (caught m) = attempts m" "maxAttempts (caught m) = maxAttempts m"
  "status (caught m) = (if attemptsGE (attempts m) (maxAttempts m) then Failed else Pending)"
  "caught (m\<lparr>status := st\<rparr>) = caught m"
  by (simp_all add: caught_def)

lemma retryTimers_status: "retryTimers now r (m\<lparr>status := st\<rparr>) = retryTimers now r m"
  by (simp add: retryTimers_def)

lemma retryTimers_refs: "\<forall>t\<in>set (retryTimers now r m). snd t = r"
  by (simp add: retryTimers_def)

lemma resume_snd:
  "snd (processMessage_resume r reply s)
     = s\<lparr>heap := (heap s)[r := settled (handlers s) reply (heap s ! r)],
         timeouts := timeouts s @ settledTimers (clock s) r (handlers s) reply (heap s ! r)\<rparr>"
proof (cases "tryBlock (handlers s) reply (heap s ! r)")
  case (Pair thrown msg)
  show ?thesis
  proof (cases thrown)
    case None
    then show ?thesis
      using Pair by (simp add: processMessage_resume_def settled_def settledTimers_def
          finallyBlock_snd)
  next
    case (Some err)
    obtain escaped where c: "catchBlock (clock s) r (handlers s) err msg
        = (escaped, caught msg, retryTimers (clock s) r msg)"
      using catchBlock_snd [of "clock s" r "handlers s" err msg]
      by (cases "catchBlock (clock s) r (handlers s) err msg") simp
    show ?thesis
      using Pair Some c by (simp add: processMessage_resume_def settled_def settledTimers_def
          finallyBlock_snd)
  qed
qed

lemma begin_snd:
  assumes "r < length (heap s)"
  shows "snd (processMessage_begin a r s)
     = (case notifyStatsChanged (s\<lparr>heap := (heap s)[r := begun (heap s ! r)]\<rparr>) of
          Returns \<Rightarrow> s\<lparr>heap := (heap s)[r := begun (heap s ! r)],
                        running := running s @ [(r, a)]\<rparr>
        | Throws err \<Rightarrow> s\<lparr>heap := (heap s)[r := caught (begun (heap s ! r))],
                           timeouts := timeouts s @ retryTimers (clock s) r (begun (heap s ! r))\<rparr>)"
    and "fst (processMessage_begin a r s) = Suspended
     \<longleftrightarrow> notifyStatsChanged (s\<lparr>heap := (heap s)[r := begun (heap s ! r)]\<rparr>) = Returns"
proof -
  let ?s1 = "s\<lparr>heap := (heap s)[r := begun (heap s ! r)]\<rparr>"
  show "snd (processMessage_begin a r s)
     = (case notifyStatsChanged ?s1 of
          Returns \<Rightarrow> s\<lparr>heap := (heap s)[r := begun (heap s ! r)],
                        running := running s @ [(r, a)]\<rparr>
        | Throws err \<Rightarrow> s\<lparr>heap := (heap s)[r := caught (begun (heap s ! r))],
                           timeouts := timeouts s @ retryTimers (clock s) r (begun (heap s ! r))\<rparr>)"
  proof (cases "notifyStatsChanged ?s1")
    case Returns
    then show ?thesis by (simp add: processMessage_begin_def begun_def Let_def)
  next
    case (Throws err)
    obtain escaped where c: "catchBlock (clock s) r (handlers s) err (begun (heap s ! r))
        = (escaped, caught (begun (heap s ! r)), retryTimers (clock s) r (begun (heap s ! r)))"
      using catchBlock_snd [of "clock s" r "handlers s" err "begun (heap s ! r)"]
      by (cases "catchBlock (clock s) r (handlers s) err (begun (heap s ! r))") simp
    let ?s2 = "s\<lparr>heap := (heap s)[r := caught (begun (heap s ! r))],
                 timeouts := timeouts s @ retryTimers (clock s) r (begun (heap s ! r))\<rparr>"
    obtain e2 where f: "finallyBlock escaped ?s2 = (e2, ?s2)"
      using finallyBlock_snd [of escaped ?s2] by (cases "finallyBlock escaped ?s2") simp
    show ?thesis
      using Throws c f assms
      by (cases e2) (simp_all add: processMessage_begin_def begun_def Let_def)
  qed
  show "fst (processMessage_begin a r s) = Suspended \<longleftrightarrow> notifyStatsChanged ?s1 = Returns"
  proof (cases "notifyStatsChanged ?s1")
    case Returns
    then show ?thesis by (simp add: processMessage_begin_def begun_def Let_def)
  next
    case (Throws err)
    then show ?thesis
      by (simp add: processMessage_begin_def begun_def Let_def split: prod.splits option.splits)
  qed
qed

lemma begin_effect:
  assumes c: "consistent s" and r: "r < length (heap s)" and p: "status (heap s ! r) = Pending"
  shows "consistent (snd (processMessage_begin a r s))"
    and "\<exists>m'. heap (snd (processMessage_begin a r s)) = (heap s)[r := m']
               \<and> started (handlers s) (heap s ! r) m'"
    and "queue (snd (processMessage_begin a r s)) = queue s"
    and "handlers (snd (processMessage_begin a r s)) = handlers s"
    and "clock (snd (processMessage_begin a r s)) = clock s"
    and "statsQuiet (handlers s) \<Longrightarrow>
           processMessage_begin a r s
             = (Suspended, s\<lparr>heap := (heap s)[r := begun (heap s ! r)],
                              running := running s @ [(r, a)]\<rparr>)"
proof -
  let ?s1 = "s\<lparr>heap := (heap s)[r := begun (heap s ! r)]\<rparr>"
  let ?m = "heap s ! r"
  have nr: "\<forall>c\<in>set (running s). fst c \<noteq> r"
    using c p by (auto simp: consistent_def)
  have fb: "\<forall>m\<in>set ((heap s)[r := begun ?m]).
             status m = Failed \<longrightarrow> attemptsGE (attempts m) (maxAttempts m)"
    using c by (intro set_update_all) (auto simp: consistent_def begun_def)
  have fc: "\<forall>m\<in>set ((heap s)[r := caught (begun ?m)]).
             status m = Failed \<longrightarrow> attemptsGE (attempts m) (maxAttempts m)"
    using c by (intro set_update_all) (auto simp: consistent_def caught_fields)
  have cr: "consistent (s\<lparr>heap := (heap s)[r := begun ?m], running := running s @ [(r, a)]\<rparr>)"
    using c r nr fb
    by (auto simp: consistent_def refsValid_def begun_def nth_list_update)
  have sc: "status (caught (begun ?m)) \<noteq> Sending"
    by (simp add: caught_fields)
  have ct: "consistent (s\<lparr>heap := (heap s)[r := caught (begun ?m)],
                          timeouts := timeouts s @ retryTimers (clock s) r (begun ?m)\<rparr>)"
    using c r nr fc retryTimers_refs [of "clock s" r "begun ?m"]
    by (auto simp: consistent_def refsValid_def nth_list_update)
  show "consistent (snd (processMessage_begin a r s))"
    using cr ct by (simp add: begin_snd(1) [OF r] split: outcome.splits)
  have q: "statsQuiet (handlers s) \<Longrightarrow> notifyStatsChanged ?s1 = Returns"
    using statsQuiet_notify [of ?s1] by simp
  show "\<exists>m'. heap (snd (processMessage_begin a r s)) = (heap s)[r := m']
               \<and> started (handlers s) ?m m'"
    using q by (auto simp: begin_snd(1) [OF r] started_def split: outcome.splits)
  show "queue (snd (processMessage_begin a r s)) = queue s"
    "handlers (snd (processMessage_begin a r s)) = handlers s"
    "clock (snd (processMessage_begin a r s)) = clock s"
    by (simp_all add: begin_snd(1) [OF r] split: outcome.splits)
  show "processMessage_begin a r s
             = (Suspended, s\<lparr>heap := (heap s)[r := begun (heap s ! r)],
                              running := running s @ [(r, a)]\<rparr>)"
    if "statsQuiet (handlers s)"
    using q [OF that] begin_snd [OF r, of a]
    by (cases "processMessage_begin a r s") simp
qed

lemma begin_length:
  assumes "r < length (heap s)"
  shows "length (heap (snd (processMessage_begin a r s))) = length (heap s)"
  by (simp add: begin_snd(1) [OF assms] split: outcome.splits)

lemma fold_startOne:
  assumes "consistent s" "distinct rs"
    "\<forall>r\<in>set rs. r < length (heap s) \<and> status (heap s ! r) = Pending"
  shows "consistent (snd (fold startOne rs (rej, s)))
     \<and> length (heap (snd (fold startOne rs (rej, s)))) = length (heap s)
     \<and> queue (snd (fold startOne rs (rej, s))) = queue s
     \<and> handlers (snd (fold startOne rs (rej, s))) = handlers s
     \<and> (\<forall>r<length (heap s). r \<in> set rs \<longrightarrow>
           started (handlers s) (heap s ! r) (heap (snd (fold startOne rs (rej, s))) ! r))
     \<and> (\<forall>r<length (heap s). r \<notin> set rs \<longrightarrow>
           heap (snd (fold startOne rs (rej, s))) ! r = heap s ! r)
     \<and> (statsQuiet (handlers s) \<longrightarrow>
           fold startOne rs (rej, s)
             = (rej, snd (fold startOne rs (rej, s)))
           \<and> running (snd (fold startOne rs (rej, s))) = running s @ map (\<lambda>r. (r, True)) rs
           \<and> (\<forall>r<length (heap s). r \<in> set rs \<longrightarrow>
                 heap (snd (fold startOne rs (rej, s))) ! r = begun (heap s ! r)))"
  using assms
proof (induction rs arbitrary: s rej)
  case Nil
  then show ?case by simp
next
  case (Cons x rs)
  obtain c s1 where b: "processMessage_begin True x s = (c, s1)"
    by (cases "processMessage_begin True x s")
  define rej1 where "rej1 = (case c of Rejected e \<Rightarrow> True | _ \<Rightarrow> rej)"
  have so: "startOne x (rej, s) = (rej1, s1)"
    using b by (simp add: rej1_def split: completion.splits)
  have x: "x < length (heap s)" "status (heap s ! x) = Pending" "x \<notin> set rs"
    using Cons.prems by auto
  note be = begin_effect [OF Cons.prems(1) x(1) x(2), of True]
  have c1: "consistent s1" using be(1) b by simp
  obtain m' where h1: "heap s1 = (heap s)[x := m']" and st: "started (handlers s) (heap s ! x) m'"
    using be(2) b by auto
  have q1: "queue s1 = queue s" and hs1: "handlers s1 = handlers s"
    using be(3,4) b by simp_all
  have rest: "\<forall>r\<in>set rs. r < length (heap s1) \<and> status (heap s1 ! r) = Pending"
    using Cons.prems x by (auto simp: h1 nth_list_update)
  have d: "distinct rs" using Cons.prems by simp
  note ih = Cons.IH [OF c1 d rest, of rej1]
  have f: "fold startOne (x # rs) (rej, s) = fold startOne rs (rej1, s1)"
    by (simp add: so del: startOne.simps)
  let ?F = "fold startOne rs (rej1, s1)"
  have l1: "length (heap s1) = length (heap s)" by (simp add: h1)
  have i1: "consistent (snd ?F)" "length (heap (snd ?F)) = length (heap s)"
    "queue (snd ?F) = queue s" "handlers (snd ?F) = handlers s"
    using ih by (simp_all add: l1 q1 hs1)
  have i2: "started (handlers s) (heap s1 ! r) (heap (snd ?F) ! r)"
    if "r < length (heap s)" "r \<in> set rs" for r
    using ih that by (simp add: l1 hs1)
  have i3: "heap (snd ?F) ! r = heap s1 ! r" if "r < length (heap s)" "r \<notin> set rs" for r
    using ih that by (simp add: l1)
  have o: "heap s1 ! r = heap s ! r" if "r \<noteq> x" for r
    using that by (simp add: h1)
  have mx: "heap s1 ! x = m'" using x(1) by (simp add: h1)
  have obj1: "started (handlers s) (heap s ! r) (heap (snd ?F) ! r)"
    if r: "r < length (heap s)" "r \<in> set (x # rs)" for r
  proof (cases "r = x")
    case True
    then show ?thesis using i3 [OF r(1)] x(3) mx st by simp
  next
    case False
    then show ?thesis using i2 [OF r(1)] r(2) o [OF False] by simp
  qed
  have obj2: "heap (snd ?F) ! r = heap s ! r"
    if r: "r < length (heap s)" "r \<notin> set (x # rs)" for r
    using i3 [OF r(1)] r(2) o [of r] by simp
  have quiet: "?F = (rej, snd ?F)
           \<and> running (snd ?F) = running s @ map (\<lambda>r. (r, True)) (x # rs)
           \<and> (\<forall>r<length (heap s). r \<in> set (x # rs) \<longrightarrow>
                 heap (snd ?F) ! r = begun (heap s ! r))"
    if sq: "statsQuiet (handlers s)"
  proof -
    have b1: "rej1 = rej" "m' = begun (heap s ! x)" "running s1 = running s @ [(x, True)]"
      using be(6) [OF sq] b h1 x(1) by (auto simp: rej1_def) (metis nth_list_update_eq)
    have sq1: "statsQuiet (handlers s1)" using sq by (simp add: hs1)
    have j: "?F = (rej1, snd ?F)"
      "running (snd ?F) = running s1 @ map (\<lambda>r. (r, True)) rs"
      "\<And>r. r < length (heap s) \<Longrightarrow> r \<in> set rs \<Longrightarrow> heap (snd ?F) ! r = begun (heap s1 ! r)"
      using ih sq1 by (simp_all add: l1)
    have "heap (snd ?F) ! r = begun (heap s ! r)" if "r < length (heap s)" "r \<in> set (x # rs)" for r
    proof (cases "r = x")
      case True
      then show ?thesis using i3 [OF that(1)] x(3) mx b1(2) by simp
    next
      case False
      then show ?thesis using j(3) [OF that(1)] that(2) o [OF False] by simp
    qed
    then show ?thesis using j(1,2) b1 by simp
  qed
  show ?case
    unfolding f using i1 obj1 obj2 quiet by simp
qed

lemma batch_props:
  assumes "consistent s"
  shows "distinct (batch s)"
    and "\<forall>r\<in>set (batch s). r < length (heap s) \<and> status (heap s ! r) = Pending"
proof -
  have q: "distinct (queue s)" "\<forall>r\<in>set (queue s). r < length (heap s)"
    using assms by (auto simp: consistent_def refsValid_def list_all_iff)
  show "distinct (batch s)"
    using q by (simp add: batch_def pendingMessages_def)
  have "set (batch s) \<subseteq> set (pendingMessages s)"
    by (simp add: batch_def set_take_subset)
  then show "\<forall>r\<in>set (batch s). r < length (heap s) \<and> status (heap s ! r) = Pending"
    using q by (auto simp: pendingMessages_def eligible_def)
qed

lemma processQueue_effect:
  assumes "consistent s"
  shows "consistent (processQueue s)"
    and "length (heap (processQueue s)) = length (heap s)"
    and "queue (processQueue s) = queue s"
    and "handlers (processQueue s) = handlers s"
    and "\<forall>r<length (heap s). \<not> processing s \<and> r \<in> set (batch s) \<longrightarrow>
           started (handlers s) (heap s ! r) (heap (processQueue s) ! r)"
    and "\<forall>r<length (heap s). \<not> (\<not> processing s \<and> r \<in> set (batch s)) \<longrightarrow>
           heap (processQueue s) ! r = heap s ! r"
    and "statsQuiet (handlers s) \<longrightarrow>
           running (processQueue s)
             = running s @ map (\<lambda>r. (r, True)) (if processing s then [] else batch s)
           \<and> (\<forall>r<length (heap s). \<not> processing s \<and> r \<in> set (batch s) \<longrightarrow>
                 heap (processQueue s) ! r = begun (heap s ! r))"
proof -
  have all: "consistent (processQueue s)
     \<and> length (heap (processQueue s)) = length (heap s)
     \<and> queue (processQueue s) = queue s
     \<and> handlers (processQueue s) = handlers s
     \<and> (\<forall>r<length (heap s). \<not> processing s \<and> r \<in> set (batch s) \<longrightarrow>
           started (handlers s) (heap s ! r) (heap (processQueue s) ! r))
     \<and> (\<forall>r<length (heap s). \<not> (\<not> processing s \<and> r \<in> set (batch s)) \<longrightarrow>
           heap (processQueue s) ! r = heap s ! r)
     \<and> (statsQuiet (handlers s) \<longrightarrow>
           running (processQueue s)
             = running s @ map (\<lambda>r. (r, True)) (if processing s then [] else batch s)
           \<and> (\<forall>r<length (heap s). \<not> processing s \<and> r \<in> set (batch s) \<longrightarrow>
                 heap (processQueue s) ! r = begun (heap s ! r)))"
  proof (cases "processing s \<or> pendingMessages s = []")
    case True
    then show ?thesis using assms by (auto simp: processQueue_def batch_def)
  next
    case False
    let ?s0 = "s\<lparr>processing := True\<rparr>"
    let ?F = "fold startOne (batch s) (False, ?s0)"
    have c0: "consistent ?s0" using assms by (simp add: consistent_processing)
    have p: "\<forall>r\<in>set (batch s). r < length (heap ?s0) \<and> status (heap ?s0 ! r) = Pending"
      using batch_props(2) [OF assms] by simp
    note fs = fold_startOne [OF c0 batch_props(1) [OF assms] p, of False]
    have ne: "batch s \<noteq> []" using False by (simp add: batch_def)
    obtain rej s1 where F: "?F = (rej, s1)" by (cases ?F)
    have s1: "consistent s1" "length (heap s1) = length (heap s)" "queue s1 = queue s"
      "handlers s1 = handlers s"
      "\<And>r. r < length (heap s) \<Longrightarrow> r \<in> set (batch s) \<Longrightarrow>
         started (handlers s) (heap s ! r) (heap s1 ! r)"
      "\<And>r. r < length (heap s) \<Longrightarrow> r \<notin> set (batch s) \<Longrightarrow> heap s1 ! r = heap s ! r"
      using fs F by simp_all
    have q: "rej = False \<and> running s1 = running s @ map (\<lambda>r. (r, True)) (batch s)
        \<and> (\<forall>r<length (heap s). r \<in> set (batch s) \<longrightarrow> heap s1 ! r = begun (heap s ! r))"
      if "statsQuiet (handlers s)"
      using fs F that by simp
    have al: "awaitedLeft (running s1)" if "statsQuiet (handlers s)"
      using q [OF that] ne by (cases "batch s") (simp_all add: awaitedLeft_def)
    define s2 where "s2 = processQueue s"
    have pq: "s2 = (if rej then s1\<lparr>processing := False, running := unawaited (running s1)\<rparr>
                    else if awaitedLeft (running s1) then s1 else s1\<lparr>processing := False\<rparr>)"
      using False F by (simp add: s2_def processQueue_def)
    have h2: "heap s2 = heap s1" "queue s2 = queue s1" "handlers s2 = handlers s1"
      by (simp_all add: pq)
    have c2: "consistent s2"
    proof -
      have "consistent (s1\<lparr>running := unawaited (running s1)\<rparr>)"
        using s1(1) by (simp add: consistent_unawaited)
      then have "consistent (s1\<lparr>processing := False, running := unawaited (running s1)\<rparr>)"
        by (simp add: consistent_def refsValid_def)
      then show ?thesis using s1(1) by (simp add: pq consistent_processing)
    qed
    have r2: "running s2 = running s1" if "statsQuiet (handlers s)"
      using q [OF that] al [OF that] by (simp add: pq)
    show ?thesis
      unfolding s2_def [symmetric]
      using c2 s1 q r2 False by (simp add: h2)
  qed
  show "consistent (processQueue s)"
    "length (heap (processQueue s)) = length (heap s)"
    "queue (processQueue s) = queue s"
    "handlers (processQueue s) = handlers s"
    "\<forall>r<length (heap s). \<not> processing s \<and> r \<in> set (batch s) \<longrightarrow>
           started (handlers s) (heap s ! r) (heap (processQueue s) ! r)"
    "\<forall>r<length (heap s). \<not> (\<not> processing s \<and> r \<in> set (batch s)) \<longrightarrow>
           heap (processQueue s) ! r = heap s ! r"
    "statsQuiet (handlers s) \<longrightarrow>
           running (processQueue s)
             = running s @ map (\<lambda>r. (r, True)) (if processing s then [] else batch s)
           \<and> (\<forall>r<length (heap s). \<not> processing s \<and> r \<in> set (batch s) \<longrightarrow>
                 heap (processQueue s) ! r = begun (heap s ! r))"
    using all by blast+
qed

lemma settled_cases:
  "settled hs reply m = m\<lparr>status := Sent\<rparr> \<or> settled hs reply m = caught m"
  by (auto simp: settled_def tryBlock_def caught_fields split: option.splits outcome.splits)

lemma settledTimers_refs: "\<forall>t\<in>set (settledTimers now r hs reply m). snd t = r"
  by (cases "tryBlock hs reply m")
     (auto simp: settledTimers_def retryTimers_def split: option.splits)

lemma settle_effect:
  assumes c: "consistent s" and st: "settle r reply s = Some s'"
  shows "consistent s'" and "r < length (heap s)" and "status (heap s ! r) = Sending"
    and "heap s' = (heap s)[r := settled (handlers s) reply (heap s ! r)]"
    and "queue s' = queue s" and "handlers s' = handlers s"
proof -
  obtain c0 where f: "find (\<lambda>c. fst c = r) (running s) = Some c0"
    using st by (auto simp: settle_def split: option.splits)
  have c0: "c0 \<in> set (running s)" "fst c0 = r"
    using f by (auto simp: find_Some_iff)
  show r: "r < length (heap s)" "status (heap s ! r) = Sending"
    using c c0 by (auto simp: consistent_def)
  let ?rest = "remove1 c0 (running s)"
  let ?m' = "settled (handlers s) reply (heap s ! r)"
  have d: "distinct (map fst (running s))" using c by (simp add: consistent_def)
  then have dr: "distinct (running s)" and inj: "inj_on fst (set (running s))"
    by (simp_all add: distinct_map)
  have rest: "distinct (map fst ?rest)" "\<forall>c\<in>set ?rest. fst c \<noteq> r" "set ?rest \<subseteq> set (running s)"
  proof -
    show "distinct (map fst ?rest)"
      using dr inj by (auto simp: distinct_map intro: inj_on_subset)
    show "set ?rest \<subseteq> set (running s)" by (simp add: set_remove1_subset)
    show "\<forall>c\<in>set ?rest. fst c \<noteq> r"
    proof
      fix c assume a: "c \<in> set ?rest"
      then have "c \<in> set (running s)" "c \<noteq> c0" using dr by auto
      then show "fst c \<noteq> r" using inj c0 by (auto dest: inj_onD)
    qed
  qed
  have fl: "status ?m' = Failed \<longrightarrow> attemptsGE (attempts ?m') (maxAttempts ?m')"
    using settled_cases [of "handlers s" reply "heap s ! r"]
    by (auto simp: caught_fields split: if_splits)
  have hp: "\<forall>m\<in>set ((heap s)[r := ?m']).
              status m = Failed \<longrightarrow> attemptsGE (attempts m) (maxAttempts m)"
    using c fl by (intro set_update_all) (auto simp: consistent_def)
  define ts where "ts = settledTimers (clock s) r (handlers s) reply (heap s ! r)"
  have ts: "\<forall>t\<in>set ts. snd t = r"
    unfolding ts_def by (rule settledTimers_refs)
  obtain escaped where res: "processMessage_resume r reply s
       = (escaped, s\<lparr>heap := (heap s)[r := ?m'], timeouts := timeouts s @ ts\<rparr>)"
    using resume_snd [of r reply s]
    by (cases "processMessage_resume r reply s") (simp add: ts_def)
  let ?s1 = "s\<lparr>heap := (heap s)[r := ?m'], timeouts := timeouts s @ ts\<rparr>"
  have "\<exists>b rs. s' = ?s1\<lparr>running := rs, processing := b\<rparr>
           \<and> (rs = ?rest \<or> rs = unawaited ?rest)"
  proof (cases escaped)
    case None
    then obtain b where "s' = ?s1\<lparr>running := ?rest, processing := b\<rparr>"
      using st f res by (auto simp: settle_def Let_def)
    then show ?thesis by blast
  next
    case (Some e)
    show ?thesis
    proof (cases "snd c0")
      case True
      then have "s' = ?s1\<lparr>running := unawaited ?rest, processing := False\<rparr>"
        using st f res Some by (simp add: settle_def Let_def)
      then show ?thesis by blast
    next
      case False
      then have "s' = ?s1\<lparr>running := ?rest\<rparr>"
        using st f res Some by (simp add: settle_def Let_def)
      moreover have "?s1\<lparr>running := ?rest\<rparr>
          = ?s1\<lparr>running := ?rest, processing := processing s\<rparr>"
        by simp
      ultimately have "s' = ?s1\<lparr>running := ?rest, processing := processing s\<rparr>"
        by (rule trans)
      then show ?thesis by blast
    qed
  qed
  then obtain b rs where s': "s' = s\<lparr>heap := (heap s)[r := ?m'], timeouts := timeouts s @ ts,
                    running := rs, processing := b\<rparr>"
    and rs: "rs = ?rest \<or> rs = unawaited ?rest"
    by auto
  have base: "consistent (s\<lparr>heap := (heap s)[r := ?m'], timeouts := timeouts s @ ts,
                    running := ?rest\<rparr>)"
    using c r rest ts hp
    by (auto simp: consistent_def refsValid_def nth_list_update)
  have "consistent (s\<lparr>heap := (heap s)[r := ?m'], timeouts := timeouts s @ ts, running := rs\<rparr>)"
    using rs
  proof
    assume "rs = ?rest" then show ?thesis using base by simp
  next
    assume u: "rs = unawaited ?rest"
    show ?thesis
      using consistent_unawaited [of "s\<lparr>heap := (heap s)[r := ?m'], timeouts := timeouts s @ ts,
                    running := ?rest\<rparr>"] base
      by (simp add: u)
  qed
  then show "consistent s'"
    by (simp add: s' consistent_def refsValid_def)
  show "heap s' = (heap s)[r := ?m']" "queue s' = queue s" "handlers s' = handlers s"
    by (simp_all add: s')
qed

lemma retryOne_idle:
  assumes "\<forall>m\<in>set h. status m = Failed \<longrightarrow> attemptsGE (attempts m) (maxAttempts m)"
    and "\<forall>r\<in>set qs. r < length h"
  shows "fold retryOne qs (n, h) = (n, h)"
  using assms by (induction qs) (auto dest: GE_not_LT)

lemma retryFailed_idle: "consistent s \<Longrightarrow> retryFailed s = (0, s)"
  by (simp add: retryFailed_def consistent_def refsValid_def list_all_iff retryOne_idle)

lemma take_drop_distinct:
  assumes "distinct xs"
  shows "distinct (take k xs)" "distinct (drop k xs)" "set (take k xs) \<inter> set (drop k xs) = {}"
proof -
  have "distinct (take k xs @ drop k xs)" using assms by simp
  then show "distinct (take k xs)" "distinct (drop k xs)"
    "set (take k xs) \<inter> set (drop k xs) = {}"
    unfolding distinct_append by auto
qed

lemma splice_in_set: "set (splice_in k x xs) = insert x (set xs)"
proof -
  have "set (take k xs) \<union> set (drop k xs) = set xs"
    by (metis append_take_drop_id set_append)
  then show ?thesis by (auto simp: splice_in_def)
qed

lemma splice_in_distinct: "distinct xs \<Longrightarrow> x \<notin> set xs \<Longrightarrow> distinct (splice_in k x xs)"
  using take_drop_distinct [of xs k]
  by (auto simp: splice_in_def dest: in_set_takeD in_set_dropD)

lemma cut_set: "set (take k xs @ drop (Suc k) xs) \<subseteq> set xs"
  by (auto dest: in_set_takeD in_set_dropD)

lemma cut_distinct: "distinct xs \<Longrightarrow> distinct (take k xs @ drop (Suc k) xs)"
proof -
  assume d: "distinct xs"
  have "set (drop (Suc k) xs) \<subseteq> set (drop k xs)"
    by (simp add: set_drop_subset_set_drop)
  then show ?thesis
    using d take_drop_distinct [OF d, of k] by (auto simp: distinct_append)
qed


lemma addMessage_effect:
  assumes "consistent s"
  shows "consistent (snd (addMessage msg i s))"
    and "heap (snd (addMessage msg i s)) = heap s @ [queuedMessage msg i (clock s)]"
    and "handlers (snd (addMessage msg i s)) = handlers s"
proof -
  show h: "heap (snd (addMessage msg i s)) = heap s @ [queuedMessage msg i (clock s)]"
    and "handlers (snd (addMessage msg i s)) = handlers s"
    by (simp_all add: addMessage_def insertByPriority_def Let_def queuedMessage_def)
  have o: "timeouts (snd (addMessage msg i s)) = timeouts s"
      "running (snd (addMessage msg i s)) = running s"
    by (simp_all add: addMessage_def insertByPriority_def Let_def queuedMessage_def)
  obtain k where k: "queue (snd (addMessage msg i s)) = splice_in k (length (heap s)) (queue s)"
    by (simp add: addMessage_def insertByPriority_def Let_def)
  have fresh: "length (heap s) \<notin> set (queue s)"
    using assms by (auto simp: consistent_def refsValid_def list_all_iff)
  show "consistent (snd (addMessage msg i s))"
    using assms fresh
    by (auto simp: consistent_def refsValid_def list_all_iff h k o splice_in_set
        splice_in_distinct nth_append queuedMessage_def)
qed

lemma removeMessage_effect:
  assumes "consistent s"
  shows "consistent (snd (removeMessage i s))" and "heap (snd (removeMessage i s)) = heap s"
    and "handlers (snd (removeMessage i s)) = handlers s"
proof -
  have "consistent (snd (removeMessage i s)) \<and> heap (snd (removeMessage i s)) = heap s
      \<and> handlers (snd (removeMessage i s)) = handlers s"
  proof (cases "findIndex (\<lambda>msg. msg_id msg = i) (getMessages s)")
    case None
    then show ?thesis using assms by (simp add: removeMessage_def)
  next
    case (Some k)
    have "set (take k (queue s) @ drop (Suc k) (queue s)) \<subseteq> set (queue s)"
      by (rule cut_set)
    moreover have "distinct (take k (queue s) @ drop (Suc k) (queue s))"
      using assms by (intro cut_distinct) (simp add: consistent_def refsValid_def)
    ultimately have "consistent (s\<lparr>queue := take k (queue s) @ drop (Suc k) (queue s)\<rparr>)"
      using assms unfolding consistent_def refsValid_def list_all_iff by auto
    then show ?thesis using Some by (simp add: removeMessage_def)
  qed
  then show "consistent (snd (removeMessage i s))" "heap (snd (removeMessage i s)) = heap s"
    "handlers (snd (removeMessage i s)) = handlers s"
    by simp_all
qed

lemma cancelMessage_effect:
  assumes "consistent s"
  shows "consistent (snd (cancelMessage i s))"
    and "length (heap (snd (cancelMessage i s))) = length (heap s)"
    and "handlers (snd (cancelMessage i s)) = handlers s"
    and "\<forall>r<length (heap s).
           moved hs (CancelMessage i) r (heap s ! r) (heap (snd (cancelMessage i s)) ! r)"
proof -
  have "consistent (snd (cancelMessage i s))
     \<and> length (heap (snd (cancelMessage i s))) = length (heap s)
     \<and> handlers (snd (cancelMessage i s)) = handlers s
     \<and> (\<forall>r<length (heap s).
           moved hs (CancelMessage i) r (heap s ! r) (heap (snd (cancelMessage i s)) ! r))"
  proof (cases "fst (cancelMessage i s)")
    case False
    then have "snd (cancelMessage i s) = s"
      by (auto simp: cancelMessage_def split: option.splits if_splits)
    then show ?thesis using assms by (simp add: moved_def)
  next
    case True
    then obtain r where f: "find (\<lambda>r. msg_id (heap s ! r) = i) (queue s) = Some r"
      and p: "status (heap s ! r) = Pending"
      by (auto simp: cancelMessage_def split: option.splits if_splits)
    have s': "snd (cancelMessage i s)
                = s\<lparr>heap := (heap s)[r := (heap s ! r)\<lparr>status := Cancelled\<rparr>]\<rparr>"
      using f p by (simp add: cancelMessage_def)
    have nr: "\<forall>c\<in>set (running s). fst c \<noteq> r"
      using assms p by (auto simp: consistent_def)
    have "r \<in> set (queue s)"
      using f by (auto simp: find_Some_iff)
    then have rl: "r < length (heap s)"
      using assms by (auto simp: consistent_def refsValid_def list_all_iff)
    have hp: "\<forall>m\<in>set ((heap s)[r := (heap s ! r)\<lparr>status := Cancelled\<rparr>]).
                status m = Failed \<longrightarrow> attemptsGE (attempts m) (maxAttempts m)"
      using assms by (intro set_update_all) (auto simp: consistent_def)
    have "consistent (snd (cancelMessage i s))"
      unfolding s' using assms nr hp rl
      by (auto simp: consistent_def refsValid_def nth_list_update)
    moreover have "\<forall>r'<length (heap s). moved hs (CancelMessage i) r' (heap s ! r')
         (heap (snd (cancelMessage i s)) ! r')"
      using p rl by (auto simp: s' moved_def nth_list_update)
    ultimately show ?thesis by (simp add: s')
  qed
  then show "consistent (snd (cancelMessage i s))"
    "length (heap (snd (cancelMessage i s))) = length (heap s)"
    "handlers (snd (cancelMessage i s)) = handlers s"
    "\<forall>r<length (heap s).
           moved hs (CancelMessage i) r (heap s ! r) (heap (snd (cancelMessage i s)) ! r)"
    by simp_all
qed

lemma clearCompleted_effect:
  assumes "consistent s"
  shows "consistent (snd (clearCompleted s))" and "heap (snd (clearCompleted s)) = heap s"
    and "handlers (snd (clearCompleted s)) = handlers s"
  using assms by (auto simp: clearCompleted_def Let_def consistent_def refsValid_def list_all_iff)

lemma destroy_effect:
  assumes "consistent s"
  shows "consistent (destroy s)" and "heap (destroy s) = heap s"
  using assms by (auto simp: destroy_def consistent_def refsValid_def)

lemma started_moved:
  "started hs m m' \<Longrightarrow> status m = Pending \<Longrightarrow> moved hs Tick r m m' \<and> moved hs (Fire k) r m m'"
  by (auto simp: started_def moved_def)

lemma fireTimeout_effect:
  assumes c: "consistent s" and f: "fireTimeout k s = Some s'"
  shows "consistent s'" and "length (heap s') = length (heap s)"
    and "handlers s' = handlers s"
    and "\<forall>r<length (heap s). moved (handlers s) (Fire k) r (heap s ! r) (heap s' ! r)"
proof -
  let ?r = "snd (timeouts s ! k)"
  let ?s0 = "s\<lparr>timeouts := take k (timeouts s) @ drop (Suc k) (timeouts s)\<rparr>"
  have k: "k < length (timeouts s)"
    using f by (auto simp: fireTimeout_def split: if_splits)
  then have r: "?r < length (heap s)"
    using c by (auto simp: consistent_def)
  have "set (take k (timeouts s) @ drop (Suc k) (timeouts s)) \<subseteq> set (timeouts s)"
    by (rule cut_set)
  then have c0: "consistent ?s0"
    using c unfolding consistent_def refsValid_def by auto
  have "consistent s' \<and> length (heap s') = length (heap s) \<and> handlers s' = handlers s
     \<and> (\<forall>r<length (heap s). moved (handlers s) (Fire k) r (heap s ! r) (heap s' ! r))"
  proof (cases "status (heap s ! ?r) = Pending")
    case False
    then have "s' = ?s0" using f by (auto simp: fireTimeout_def Let_def split: if_splits)
    then show ?thesis using c0 by (simp add: moved_def)
  next
    case True
    then have s': "s' = snd (processMessage_begin False ?r ?s0)"
      using f by (auto simp: fireTimeout_def Let_def split: if_splits)
    have r0: "?r < length (heap ?s0)" "status (heap ?s0 ! ?r) = Pending"
      using r True by simp_all
    note be = begin_effect [OF c0 r0, of False]
    obtain m' where h: "heap s' = (heap s)[?r := m']" and st: "started (handlers s) (heap s ! ?r) m'"
      using be(2) by (auto simp: s')
    have "\<forall>r<length (heap s). moved (handlers s) (Fire k) r (heap s ! r) (heap s' ! r)"
    proof (intro allI impI)
      fix r' assume "r' < length (heap s)"
      show "moved (handlers s) (Fire k) r' (heap s ! r') (heap s' ! r')"
      proof (cases "r' = ?r")
        case True
        then show ?thesis using started_moved [OF st] r \<open>status (heap s ! ?r) = Pending\<close>
          by (simp add: h)
      next
        case False
        then show ?thesis by (simp add: h moved_def)
      qed
    qed
    then show ?thesis using be(1,4) by (simp add: s' [symmetric] h)
  qed
  then show "consistent s'" "length (heap s') = length (heap s)" "handlers s' = handlers s"
    "\<forall>r<length (heap s). moved (handlers s) (Fire k) r (heap s ! r) (heap s' ! r)"
    by simp_all
qed

lemma tick_effect:
  assumes c: "consistent s" and t: "tick s = Some s'"
  shows "consistent s'" and "length (heap s') = length (heap s)"
    and "handlers s' = handlers s"
    and "\<forall>r<length (heap s). moved (handlers s) Tick r (heap s ! r) (heap s' ! r)"
proof -
  let ?s0 = "s\<lparr>processingInterval := Some (clock s + 2000)\<rparr>"
  have s': "s' = processQueue ?s0"
    using t by (auto simp: tick_def split: option.splits if_splits)
  have c0: "consistent ?s0" using c by (simp add: consistent_interval)
  note pe = processQueue_effect [OF c0]
  have p: "\<forall>r\<in>set (batch ?s0). status (heap s ! r) = Pending"
    using batch_props(2) [OF c0] by simp
  show "consistent s'" "length (heap s') = length (heap s)" "handlers s' = handlers s"
    using pe(1,2,4) by (simp_all add: s')
  show "\<forall>r<length (heap s). moved (handlers s) Tick r (heap s ! r) (heap s' ! r)"
  proof (intro allI impI)
    fix r assume r: "r < length (heap s)"
    show "moved (handlers s) Tick r (heap s ! r) (heap s' ! r)"
    proof (cases "\<not> processing ?s0 \<and> r \<in> set (batch ?s0)")
      case True
      then have "started (handlers s) (heap s ! r) (heap s' ! r)"
        using pe(5) r by (simp add: s')
      then show ?thesis using started_moved True p by blast
    next
      case False
      then have "heap s' ! r = heap s ! r"
        using pe(6) r by (auto simp: s')
      then show ?thesis by (simp add: moved_def)
    qed
  qed
qed

lemma step_moved:
  assumes c: "consistent s" and st: "step e s = Some s'"
  shows "consistent s' \<and> length (heap s) \<le> length (heap s')
     \<and> (\<forall>r<length (heap s). moved (handlers s) e r (heap s ! r) (heap s' ! r))
     \<and> (\<forall>r. length (heap s) \<le> r \<and> r < length (heap s') \<longrightarrow>
           (\<exists>msg i. e = AddMessage msg i \<and> heap s' ! r = queuedMessage msg i (clock s)))
     \<and> (e \<noteq> Destroy \<longrightarrow> handlers s' = handlers s)"
proof (cases e)
  case (AddMessage msg i)
  then show ?thesis
    using st addMessage_effect [OF c, of msg i]
    by (auto simp: moved_def nth_append less_Suc_eq)
next
  case (RemoveMessage i)
  then show ?thesis using st removeMessage_effect [OF c, of i] by (auto simp: moved_def)
next
  case (CancelMessage i)
  then show ?thesis using st cancelMessage_effect(1,2,3) [OF c, of i]
      cancelMessage_effect(4) [OF c, where i = i and hs = "handlers s"]
    by auto
next
  case ClearCompleted
  then show ?thesis using st clearCompleted_effect [OF c] by (auto simp: moved_def)
next
  case RetryFailed
  then show ?thesis using st c by (auto simp: retryFailed_idle moved_def)
next
  case Destroy
  then show ?thesis using st destroy_effect [OF c] by (auto simp: moved_def)
next
  case Tick
  then show ?thesis using st tick_effect [OF c, of s'] by auto
next
  case (Fire k)
  then show ?thesis using st fireTimeout_effect [OF c, of k s'] by auto
next
  case (Settle r reply)
  then have "settle r reply s = Some s'" using st by simp
  note se = settle_effect [OF c this]
  have "\<forall>r'<length (heap s). moved (handlers s) (Settle r reply) r' (heap s ! r') (heap s' ! r')"
    using se(2,3) by (auto simp: se(4) moved_def nth_list_update)
  then show ?thesis using se Settle by simp
next
  case (Advance d)
  then show ?thesis using st c by (auto simp: consistent_clock moved_def)
qed

lemma moved_cases:
  assumes "moved hs e r m m'"
  shows "m' = m
    \<or> (status m = Pending \<and> m' = m\<lparr>status := Cancelled\<rparr>)
    \<or> (status m = Pending \<and> (m' = begun m \<or> m' = caught (begun m)))
    \<or> (status m = Sending \<and> (m' = m\<lparr>status := Sent\<rparr> \<or> m' = caught m))"
proof (cases e)
  case (Settle r' reply)
  then show ?thesis
    using assms settled_cases [of hs reply m] by (auto simp: moved_def)
qed (use assms in \<open>auto simp: moved_def\<close>)

lemma moved_terminal: "moved hs e r m m' \<Longrightarrow> terminal m \<Longrightarrow> m' = m"
  using moved_cases [of hs e r m m'] by (auto simp: terminal_def)

lemma withinBudget_begun:
  "withinBudget m \<Longrightarrow> status m = Pending \<Longrightarrow> withinBudget (begun m)"
  by (auto simp: withinBudget_def begun_def)

lemma withinBudget_caught:
  assumes "withinBudget m" "status m = Sending"
  shows "withinBudget (caught m)"
proof -
  obtain k where k: "maxAttempts m = Num (real k)" "attempts m \<le> k"
    using assms by (auto simp: withinBudget_def)
  show ?thesis
    unfolding withinBudget_def
    by (rule exI [of _ k]) (use k in \<open>auto simp: caught_def\<close>)
qed

lemma withinBudget_status:
  "withinBudget m \<Longrightarrow> st \<noteq> Pending \<Longrightarrow> st \<noteq> Failed \<Longrightarrow> withinBudget (m\<lparr>status := st\<rparr>)"
  by (auto simp: withinBudget_def)

lemma moved_budget:
  assumes "moved hs e r m m'" "withinBudget m"
  shows "withinBudget m'"
proof -
  from moved_cases [OF assms(1)] consider "m' = m"
    | "status m = Pending" "m' = m\<lparr>status := Cancelled\<rparr>"
    | "status m = Pending" "m' = begun m"
    | "status m = Pending" "m' = caught (begun m)"
    | "status m = Sending" "m' = m\<lparr>status := Sent\<rparr>"
    | "status m = Sending" "m' = caught m"
    by blast
  then show ?thesis
  proof cases
    case 1
    then show ?thesis using assms(2) by simp
  next
    case 2
    then show ?thesis using assms(2) by (simp add: withinBudget_status)
  next
    case 3
    then show ?thesis using assms(2) by (simp add: withinBudget_begun)
  next
    case 4
    have "withinBudget (begun m)" "status (begun m) = Sending"
      using 4 assms(2) by (simp_all add: withinBudget_begun) (simp add: begun_def)
    then show ?thesis using 4 by (simp add: withinBudget_caught)
  next
    case 5
    then show ?thesis using assms(2) by (simp add: withinBudget_status)
  next
    case 6
    then show ?thesis using assms(2) by (simp add: withinBudget_caught)
  qed
qed

lemma tryBlock_quiet:
  "sentQuiet hs \<Longrightarrow>
     tryBlock hs reply m
       = (case attemptSend reply m of Some err \<Rightarrow> (Some err, m)
          | None \<Rightarrow> (None, m\<lparr>status := Sent\<rparr>))"
  by (simp add: tryBlock_def sentQuiet_def callHandler_def split: option.splits)

lemma settled_quiet:
  "sentQuiet hs \<Longrightarrow>
     settled hs reply m = (if attemptSend reply m = None then m\<lparr>status := Sent\<rparr> else caught m)"
  by (auto simp: settled_def tryBlock_quiet split: option.splits)

lemma settled_failing:
  "attemptSend reply m \<noteq> None \<Longrightarrow> settled hs reply m = caught m"
  by (auto simp: settled_def tryBlock_def)

lemma moved_Failed:
  assumes "moved hs e r m m'" "statsQuiet hs" "sentQuiet hs"
    "status m \<noteq> Failed" "status m' = Failed"
  shows "\<exists>reply. e = Settle r reply \<and> attemptSend reply m \<noteq> None
           \<and> attemptsGE (attempts m) (maxAttempts m)"
proof (cases e)
  case (Settle r' reply)
  then have "r' = r" "m' = settled hs reply m"
    using assms by (auto simp: moved_def)
  then show ?thesis
    using assms Settle by (auto simp: settled_quiet caught_fields split: if_splits)
qed (use assms in \<open>auto simp: moved_def begun_def\<close>)

lemma step_consistent: "consistent s \<Longrightarrow> step e s = Some s' \<Longrightarrow> consistent s'"
  using step_moved [of s e s'] by simp

lemma step_length:
  "consistent s \<Longrightarrow> step e s = Some s' \<Longrightarrow> length (heap s) \<le> length (heap s')"
  using step_moved [of s e s'] by simp

lemma step_object:
  "consistent s \<Longrightarrow> step e s = Some s' \<Longrightarrow> r < length (heap s) \<Longrightarrow>
     moved (handlers s) e r (heap s ! r) (heap s' ! r)"
  using step_moved [of s e s'] by simp

lemma step_new_object:
  "consistent s \<Longrightarrow> step e s = Some s' \<Longrightarrow> length (heap s) \<le> r \<Longrightarrow>
     r < length (heap s') \<Longrightarrow>
     \<exists>msg i. e = AddMessage msg i \<and> heap s' ! r = queuedMessage msg i (clock s)"
  using step_moved [of s e s'] by simp

lemma step_handlers:
  "consistent s \<Longrightarrow> step e s = Some s' \<Longrightarrow> handlers s = noHandlers \<Longrightarrow>
     handlers s' = noHandlers"
  using step_moved [of s e s'] by (cases "e = Destroy") (auto simp: destroy_def)

lemma subscribe_effect:
  "consistent (subscribe sub s) = consistent s" "heap (subscribe sub s) = heap s"
  by (cases sub; simp add: consistent_handlers)+

lemma perform_consistent: "consistent s \<Longrightarrow> perform a s = Some s' \<Longrightarrow> consistent s'"
  by (cases a) (auto simp: step_consistent subscribe_effect)

lemma perform_length:
  "consistent s \<Longrightarrow> perform a s = Some s' \<Longrightarrow> length (heap s) \<le> length (heap s')"
  by (cases a) (auto simp: step_length subscribe_effect)

lemma perform_terminal:
  assumes "consistent s" "perform a s = Some s'" "r < length (heap s)" "terminal (heap s ! r)"
  shows "heap s' ! r = heap s ! r"
proof (cases a)
  case (Event e)
  then have "step e s = Some s'" using assms(2) by simp
  from moved_terminal [OF step_object [OF assms(1) this assms(3)] assms(4)]
  show ?thesis .
next
  case (Subscribe sub)
  then show ?thesis using assms(2) by (auto simp: subscribe_effect)
qed

lemma perform_budget:
  assumes "consistent s" "perform a s = Some s'" "budgeted a"
    "\<forall>m\<in>set (heap s). withinBudget m"
  shows "\<forall>m\<in>set (heap s'). withinBudget m"
proof (cases a)
  case (Subscribe sub)
  then show ?thesis using assms(2,4) by (auto simp: subscribe_effect)
next
  case (Event e)
  then have st: "step e s = Some s'" using assms(2) by simp
  have "\<forall>r<length (heap s'). withinBudget (heap s' ! r)"
  proof (intro allI impI)
    fix r assume r: "r < length (heap s')"
    show "withinBudget (heap s' ! r)"
    proof (cases "r < length (heap s)")
      case True
      then have "withinBudget (heap s ! r)" using assms(4) by simp
      then show ?thesis
        using moved_budget [OF step_object [OF assms(1) st True]] by simp
    next
      case False
      then obtain msg i where e: "e = AddMessage msg i"
        and h: "heap s' ! r = queuedMessage msg i (clock s)"
        using step_new_object [OF assms(1) st _ r] by auto
      have "wholeBudget (maxAttempts msg)" using assms(3) Event e by simp
      then obtain x where x: "maxAttempts msg = Num x" "x \<in> \<nat>" "1 \<le> x"
        by (cases "maxAttempts msg") auto
      then obtain k where k: "x = real k" by (auto elim: Nats_cases)
      then have "1 \<le> k" using x by simp
      then show ?thesis
        unfolding withinBudget_def h
        by (intro exI [of _ k]) (simp add: queuedMessage_def x k)
    qed
  qed
  then show ?thesis by (simp add: all_set_conv_all_nth)
qed

lemma performAll_consistent:
  assumes "consistent s" "performAll as s = Some s'"
  shows "consistent s' \<and> length (heap s) \<le> length (heap s')
     \<and> (\<forall>r<length (heap s). terminal (heap s ! r) \<longrightarrow> heap s' ! r = heap s ! r)"
  using assms
proof (induction as arbitrary: s)
  case Nil
  then show ?case by simp
next
  case (Cons a as)
  then obtain s1 where s1: "perform a s = Some s1" and r1: "performAll as s1 = Some s'"
    by (auto split: option.splits)
  note c1 = perform_consistent [OF Cons.prems(1) s1]
  note l1 = perform_length [OF Cons.prems(1) s1]
  note ih = Cons.IH [OF c1 r1]
  have k: "heap s1 ! r = heap s ! r" if "r < length (heap s)" "terminal (heap s ! r)" for r
    using perform_terminal [OF Cons.prems(1) s1 that] .
  have "heap s' ! r = heap s ! r" if "r < length (heap s)" "terminal (heap s ! r)" for r
  proof -
    have "r < length (heap s1)" "terminal (heap s1 ! r)"
      using that l1 k [OF that] by simp_all
    then have "heap s' ! r = heap s1 ! r" using ih by simp
    then show ?thesis using k [OF that] by simp
  qed
  then show ?case using ih l1 by simp
qed

lemma performAll_budget:
  assumes "consistent s" "\<forall>m\<in>set (heap s). withinBudget m" "performAll as s = Some s'"
    "list_all budgeted as"
  shows "\<forall>m\<in>set (heap s'). withinBudget m"
  using assms
proof (induction as arbitrary: s)
  case Nil
  then show ?case by simp
next
  case (Cons a as)
  then obtain s1 where s1: "perform a s = Some s1" and r1: "performAll as s1 = Some s'"
    by (auto split: option.splits)
  have b: "budgeted a" "list_all budgeted as" using Cons.prems by simp_all
  note c1 = perform_consistent [OF Cons.prems(1) s1]
  note b1 = perform_budget [OF Cons.prems(1) s1 b(1) Cons.prems(2)]
  show ?case using Cons.IH [OF c1 b1 r1 b(2)] .
qed

lemma run_performAll: "run es s = performAll (map Event es) s"
  by (induction es arbitrary: s) (auto split: option.splits)

lemma run_consistent:
  assumes "consistent s" "run es s = Some s'"
  shows "consistent s' \<and> length (heap s) \<le> length (heap s')
     \<and> (\<forall>r<length (heap s). terminal (heap s ! r) \<longrightarrow> heap s' ! r = heap s ! r)"
  using performAll_consistent [OF assms(1)] assms(2) by (simp add: run_performAll)

lemma run_handlers:
  assumes "consistent s" "handlers s = noHandlers" "run es s = Some s'"
  shows "handlers s' = noHandlers"
  using assms
proof (induction es arbitrary: s)
  case Nil
  then show ?case by simp
next
  case (Cons e es)
  then obtain s1 where s1: "step e s = Some s1" and r1: "run es s1 = Some s'"
    by (auto split: option.splits)
  show ?case
    using Cons.IH [OF step_consistent [OF Cons.prems(1) s1]
        step_handlers [OF Cons.prems(1) s1 Cons.prems(2)] r1] .
qed

lemma getMessages_heap: "refsValid s \<Longrightarrow> set (getMessages s) \<subseteq> set (heap s)"
  by (auto simp: refsValid_def list_all_iff getMessages_def)

lemma withinBudget_bounds:
  "withinBudget m \<Longrightarrow>
     attemptsLE (attempts m) (maxAttempts m)
     \<and> (status m = Failed \<longrightarrow> maxAttempts m = Num (real (attempts m)))"
  by (auto simp: withinBudget_def)

subsection \<open>The delivery state machine\<close>

lemmas subscriber_run_defs =
  addMessage_def insertByPriority_def newMessageQueue_def startProcessing_def getMessages_def
  splice_in_def textMessage_def tick_def processQueue_def pendingMessages_def batch_def
  eligible_def processMessage_begin_def settle_def processMessage_resume_def tryBlock_def
  attemptSend_def catchBlock_def finallyBlock_def notifyStatsChanged_def callHandler_def
  noHandlers_def backoffDelay_def fireTimeout_def awaitedLeft_def unawaited_def
  disconnected_def returned_def threw_def getStats_def


lemma performAll_quietStartTrace:
  "performAll (quietStartTrace budget) (newMessageQueue 0) = Some (quietSendingExample budget)"
  by (simp add: quietStartTrace_def quietSendingExample_def quietHandlers_def subscriber_run_defs)



lemma performAll_sentThrowTrace:
  "performAll (sentThrowTrace budget) (newMessageQueue 0) = Some (sentThrowExample budget)"
  by (simp add: sentThrowTrace_def sentThrowExample_def subscriber_run_defs)




text \<open>
  C3 on the code. A request with \<open>maxAttempts = 1.5\<close> and a transport that is never
  connected: after the first failure 1 is below 1.5, so the message is retried; after the
  second it is \<open>failed\<close> with 2 attempts, more than its budget. With a subscriber
  \<open>onMessageSent\<close> that throws and a budget of 1, the message is \<open>failed\<close> after a send that
  succeeded; with a subscriber \<open>onQueueStatsChanged\<close> that throws it is \<open>failed\<close> in the cycle
  that picks it up, without any transport attempt. And a request with a budget of 0, which
  \<open>addMessage\<close> accepts as well, has 1 attempt once it is picked up.
\<close>

theorem fractional_budget_exceeded:
  "map_option (\<lambda>s. map (\<lambda>m. (status m, attempts m, maxAttempts m)) (getMessages s))
     (run fractionalTrace (newMessageQueue 0)) = Some [(Failed, 2, Num (3 / 2))]
   \<and> \<not> attemptsLE 2 (Num (3 / 2))
   \<and> performAll (sentThrowTrace 1) (newMessageQueue 0) = Some (sentThrowExample 1)
   \<and> attemptSend (returned True) (heap (sentThrowExample 1) ! 0) = None
   \<and> map_option (\<lambda>s. map (\<lambda>m. (status m, attempts m, maxAttempts m)) (getMessages s))
        (step (Settle 0 (returned True)) (sentThrowExample 1)) = Some [(Failed, 1, Num 1)]
   \<and> map_option (\<lambda>s. (map (\<lambda>m. (status m, attempts m, maxAttempts m)) (getMessages s),
                         running s))
        (performAll statsThrowTrace (newMessageQueue 0)) = Some ([(Failed, 1, Num 1)], [])
   \<and> map_option (\<lambda>s. map (\<lambda>m. (status m, attempts m, maxAttempts m)) (getMessages s))
        (run zeroBudgetTrace (newMessageQueue 0)) = Some [(Sending, 1, Num 0)]
   \<and> \<not> attemptsLE 1 (Num 0)"
  using performAll_sentThrowTrace [of 1]
  by (simp add: fractionalTrace_def sentThrowExample_def statsThrowTrace_def zeroBudgetTrace_def
      subscriber_run_defs)

text \<open>
  C3, amended. In every state the queue reaches from its construction, by any events and
  subscriptions, when every request carries a \<open>maxAttempts\<close> that is a whole number of at
  least 1: every message object (those listed by \<open>getMessages\<close> are among them) has
  \<open>0 \<le> attempts \<le> maxAttempts\<close> (\<open>attempts\<close> is a natural number), and a \<open>failed\<close> one has
  \<open>attempts = maxAttempts\<close>. And while the subscribers \<open>onQueueStatsChanged\<close> and
  \<open>onMessageSent\<close> do not throw, a message becomes \<open>failed\<close> in a step exactly when the step
  is the end of a transport attempt on it that failed while \<open>attempts = maxAttempts\<close>.
\<close>

theorem attempts_within_whole_budget:
  assumes "performAll as (newMessageQueue t) = Some s" "list_all budgeted as"
  shows "(\<forall>m\<in>set (heap s). attemptsLE (attempts m) (maxAttempts m)
            \<and> (status m = Failed \<longrightarrow> maxAttempts m = Num (real (attempts m))))
     \<and> set (getMessages s) \<subseteq> set (heap s)
     \<and> (\<forall>e s' r. step e s = Some s' \<and> r < length (heap s)
                  \<and> statsQuiet (handlers s) \<and> sentQuiet (handlers s) \<longrightarrow>
           ((status (heap s ! r) \<noteq> Failed \<and> status (heap s' ! r) = Failed)
            = (\<exists>reply. e = Settle r reply \<and> attemptSend reply (heap s ! r) \<noteq> None
                  \<and> maxAttempts (heap s ! r) = Num (real (attempts (heap s ! r))))))"
proof -
  have c: "consistent s"
    using performAll_consistent [OF consistent_new assms(1)] by simp
  have "\<forall>m\<in>set (heap (newMessageQueue t)). withinBudget m"
    by (simp add: newMessageQueue_def startProcessing_def)
  then have b: "\<forall>m\<in>set (heap s). withinBudget m"
    using performAll_budget [OF consistent_new _ assms] by simp
  have a1: "\<forall>m\<in>set (heap s). attemptsLE (attempts m) (maxAttempts m)
            \<and> (status m = Failed \<longrightarrow> maxAttempts m = Num (real (attempts m)))"
    using b withinBudget_bounds by blast
  have a2: "set (getMessages s) \<subseteq> set (heap s)"
    using c by (simp add: getMessages_heap consistent_def)
  have a3: "(status (heap s ! r) \<noteq> Failed \<and> status (heap s' ! r) = Failed)
            = (\<exists>reply. e = Settle r reply \<and> attemptSend reply (heap s ! r) \<noteq> None
                  \<and> maxAttempts (heap s ! r) = Num (real (attempts (heap s ! r))))"
    if st: "step e s = Some s'" and r: "r < length (heap s)"
      and q: "statsQuiet (handlers s)" "sentQuiet (handlers s)" for e s' r
  proof
    assume f: "status (heap s ! r) \<noteq> Failed \<and> status (heap s' ! r) = Failed"
    have "moved (handlers s) e r (heap s ! r) (heap s' ! r)"
      using step_object [OF c st r] .
    then obtain reply where e: "e = Settle r reply" "attemptSend reply (heap s ! r) \<noteq> None"
      "attemptsGE (attempts (heap s ! r)) (maxAttempts (heap s ! r))"
      using moved_Failed [of "handlers s" e r "heap s ! r" "heap s' ! r"] f q by auto
    have "withinBudget (heap s ! r)" using b r by simp
    then have "maxAttempts (heap s ! r) = Num (real (attempts (heap s ! r)))"
      using e(3) by (auto simp: withinBudget_def)
    then show "\<exists>reply. e = Settle r reply \<and> attemptSend reply (heap s ! r) \<noteq> None
                  \<and> maxAttempts (heap s ! r) = Num (real (attempts (heap s ! r)))"
      using e by auto
  next
    assume "\<exists>reply. e = Settle r reply \<and> attemptSend reply (heap s ! r) \<noteq> None
                  \<and> maxAttempts (heap s ! r) = Num (real (attempts (heap s ! r)))"
    then obtain reply where e: "e = Settle r reply"
      and i: "attemptSend reply (heap s ! r) \<noteq> None"
      and a: "maxAttempts (heap s ! r) = Num (real (attempts (heap s ! r)))"
      by blast
    have "settle r reply s = Some s'" using st e by simp
    note eff = settle_effect [OF c this]
    have "status (settled (handlers s) reply (heap s ! r)) = Failed"
      using a by (simp add: settled_failing [OF i] caught_fields)
    then show "status (heap s ! r) \<noteq> Failed \<and> status (heap s' ! r) = Failed"
      using eff(2,3) by (simp add: eff(4))
  qed
  show ?thesis
  proof (intro conjI allI impI)
    show "\<forall>m\<in>set (heap s). attemptsLE (attempts m) (maxAttempts m)
            \<and> (status m = Failed \<longrightarrow> maxAttempts m = Num (real (attempts m)))"
      by (rule a1)
    show "set (getMessages s) \<subseteq> set (heap s)"
      by (rule a2)
  next
    fix e s' r
    assume "step e s = Some s' \<and> r < length (heap s)
              \<and> statsQuiet (handlers s) \<and> sentQuiet (handlers s)"
    then show "(status (heap s ! r) \<noteq> Failed \<and> status (heap s' ! r) = Failed)
            = (\<exists>reply. e = Settle r reply \<and> attemptSend reply (heap s ! r) \<noteq> None
                  \<and> maxAttempts (heap s ! r) = Num (real (attempts (heap s ! r))))"
      using a3 [of e s' r] by simp
  qed
qed

lemma list_all_budgeted_quietStartTrace: "list_all budgeted (quietStartTrace 1)"
  by (simp add: quietStartTrace_def textMessage_def)

lemma quietSendingExample_fields:
  "heap (quietSendingExample budget)
     = [(textMessage Normal None budget)\<lparr>msg_id := ''m1'', status := Sending, attempts := 1\<rparr>]"
  "handlers (quietSendingExample budget) = quietHandlers"
  by (simp_all add: quietSendingExample_def)

lemma quiet_quietHandlers:
  "sentQuiet quietHandlers" "statsQuiet quietHandlers" "failedQuiet quietHandlers"
  by (simp_all add: sentQuiet_def statsQuiet_def failedQuiet_def quietHandlers_def)

lemma step_quietSendingExample_fails:
  "map_option (\<lambda>s. map (\<lambda>m. (status m, attempts m, maxAttempts m)) (heap s))
     (step (Settle 0 (threw ''network'')) (quietSendingExample 1)) = Some [(Failed, 1, Num 1)]"
  by (simp add: quietSendingExample_def quietHandlers_def subscriber_run_defs)

theorem attempts_within_whole_budget_witness:
  "performAll (quietStartTrace 1) (newMessageQueue 0) = Some (quietSendingExample 1)
   \<and> list_all budgeted (quietStartTrace 1)
   \<and> map (\<lambda>m. (status m, attempts m, maxAttempts m)) (heap (quietSendingExample 1))
       = [(Sending, 1, Num 1)]
   \<and> attemptsLE (attempts (hd (heap (quietSendingExample 1))))
        (maxAttempts (hd (heap (quietSendingExample 1))))
   \<and> statsQuiet (handlers (quietSendingExample 1)) \<and> sentQuiet (handlers (quietSendingExample 1))
   \<and> attemptSend (threw ''network'') (heap (quietSendingExample 1) ! 0) \<noteq> None
   \<and> map_option (\<lambda>s. map (\<lambda>m. (status m, attempts m, maxAttempts m)) (heap s))
        (step (Settle 0 (threw ''network'')) (quietSendingExample 1)) = Some [(Failed, 1, Num 1)]"
proof -
  note th = attempts_within_whole_budget [OF performAll_quietStartTrace
      list_all_budgeted_quietStartTrace]
  have "hd (heap (quietSendingExample 1)) \<in> set (heap (quietSendingExample 1))"
    by (simp add: quietSendingExample_fields)
  then have b: "attemptsLE (attempts (hd (heap (quietSendingExample 1))))
      (maxAttempts (hd (heap (quietSendingExample 1))))"
    using th by blast
  have q: "statsQuiet (handlers (quietSendingExample 1))"
    "sentQuiet (handlers (quietSendingExample 1))"
    by (simp_all add: quietSendingExample_fields quiet_quietHandlers)
  have a: "attemptSend (threw ''network'') (heap (quietSendingExample 1) ! 0) \<noteq> None"
    by (simp add: attemptSend_def threw_def)
  show ?thesis
    using performAll_quietStartTrace [of 1] list_all_budgeted_quietStartTrace b q a
      step_quietSendingExample_fails
    by (simp add: quietSendingExample_fields textMessage_def)
qed










lemma subseq_batch: "subseq (batch s) (queue s)"
proof -
  have "subseq (batch s) (pendingMessages s)"
    by (simp add: batch_def prefix_imp_subseq take_is_prefix)
  moreover have "subseq (pendingMessages s) (queue s)"
    by (simp add: pendingMessages_def)
  ultimately show ?thesis by (rule subseq_order.trans)
qed

text \<open>
  C9. In every state the queue reaches by its events a cycle of \<open>processQueue\<close> starts \<open>processMessage\<close> for the
  messages of \<open>batch\<close> and for no other (for none while \<open>processing\<close> is set): they are
  at most 5, each is \<open>pending\<close> with no scheduled time or one that is not after the clock,
  they are the first such messages in the order of the queue, and exactly they become
  \<open>sending\<close> with one more attempt.
\<close>

theorem processQueue_batch:
  assumes "run es (newMessageQueue t) = Some s"
  shows "length (batch s) \<le> 5
     \<and> (\<forall>r\<in>set (batch s). status (heap s ! r) = Pending
            \<and> (scheduledFor (heap s ! r) = None
                \<or> (\<exists>t'. scheduledFor (heap s ! r) = Some t' \<and> t' \<le> clock s)))
     \<and> prefix (batch s)
          (filter (\<lambda>r. status (heap s ! r) = Pending
                       \<and> (case scheduledFor (heap s ! r) of None \<Rightarrow> True | Some t' \<Rightarrow> t' \<le> clock s))
             (queue s))
     \<and> subseq (batch s) (queue s)
     \<and> running (processQueue s)
         = running s @ map (\<lambda>r. (r, True)) (if processing s then [] else batch s)
     \<and> (\<forall>r<length (heap s). heap (processQueue s) ! r
            = (if \<not> processing s \<and> r \<in> set (batch s) then begun (heap s ! r) else heap s ! r))
     \<and> queue (processQueue s) = queue s"
proof -
  have c: "consistent s"
    using run_consistent [OF consistent_new assms] by simp
  have "handlers (newMessageQueue t) = noHandlers"
    by (simp add: newMessageQueue_def startProcessing_def)
  then have "handlers s = noHandlers"
    using run_handlers [OF consistent_new _ assms] by simp
  then have q: "statsQuiet (handlers s)"
    by (simp add: statsQuiet_def noHandlers_def)
  have a: "length (batch s) \<le> 5"
    by (simp add: batch_def)
  have "set (batch s) \<subseteq> set (pendingMessages s)"
    by (simp add: batch_def set_take_subset)
  then have b: "\<forall>r\<in>set (batch s). status (heap s ! r) = Pending
            \<and> (scheduledFor (heap s ! r) = None
                \<or> (\<exists>t'. scheduledFor (heap s ! r) = Some t' \<and> t' \<le> clock s))"
    by (auto simp: pendingMessages_def eligible_def split: option.splits)
  have p: "prefix (batch s)
          (filter (\<lambda>r. status (heap s ! r) = Pending
                       \<and> (case scheduledFor (heap s ! r) of None \<Rightarrow> True | Some t' \<Rightarrow> t' \<le> clock s))
             (queue s))"
    by (simp add: batch_def pendingMessages_def eligible_def take_is_prefix)
  note pe = processQueue_effect [OF c]
  have r: "running (processQueue s)
         = running s @ map (\<lambda>r. (r, True)) (if processing s then [] else batch s)"
    using pe(7) q by simp
  have h: "\<forall>r<length (heap s). heap (processQueue s) ! r
            = (if \<not> processing s \<and> r \<in> set (batch s) then begun (heap s ! r) else heap s ! r)"
    using pe(6) pe(7) q by auto
  show ?thesis
    using a b p subseq_batch [of s] r h pe(3) by simp
qed

theorem processQueue_batch_witness:
  "run backoffTrace (newMessageQueue 0) = Some backoffExample
   \<and> batch backoffExample = [0]
   \<and> running (processQueue backoffExample) = [(0, True)]"
proof -
  have "batch backoffExample = [0]"
    by (simp add: backoffExample_def batch_def pendingMessages_def eligible_def textMessage_def)
  then show ?thesis
    using processQueue_batch [OF run_backoffTrace] run_backoffTrace
    by (simp add: backoffExample_def)
qed


text \<open>
  In every state the queue reaches, \<open>retryFailed\<close> resets nothing: a message is \<open>failed\<close>
  only with its attempts used up, which is what the guard of \<open>retryFailed\<close> excludes.
\<close>

lemma retryFailed_never_resets:
  assumes "run es (newMessageQueue t) = Some s"
  shows "retryFailed s = (0, s)"
  using run_consistent [OF consistent_new assms] by (simp add: retryFailed_idle)

text \<open>The hypothesis of the theorems on single operations holds in every reachable state.\<close>

lemma reachable_refsValid:
  assumes "performAll as (newMessageQueue t) = Some s"
  shows "refsValid s"
  using performAll_consistent [OF consistent_new assms] by (simp add: consistent_def)

text \<open>
  With subscribers registered the cycle starts \<open>processMessage\<close> for the same batch: each
  of its messages is counted and \<open>sending\<close>, or was taken through the \<open>catch\<close> block at once
  when the notification threw; no other message changes.
\<close>

lemma processQueue_batch_subscribers:
  assumes "performAll as (newMessageQueue t) = Some s"
  shows "queue (processQueue s) = queue s
     \<and> (\<forall>r<length (heap s). \<not> processing s \<and> r \<in> set (batch s) \<longrightarrow>
           started (handlers s) (heap s ! r) (heap (processQueue s) ! r))
     \<and> (\<forall>r<length (heap s). \<not> (\<not> processing s \<and> r \<in> set (batch s)) \<longrightarrow>
           heap (processQueue s) ! r = heap s ! r)"
proof -
  have c: "consistent s"
    using performAll_consistent [OF consistent_new assms] by simp
  show ?thesis
    using processQueue_effect(3,5,6) [OF c] by simp
qed

end
